theory Spec2Isabelle
  imports Main "HOL-Library.Product_Lexorder" "HOL-Library.Log_Nat" "HOL-Library.Multiset"
begin

section \<open>Python built-ins used by the scripts\<close>

text \<open>
  File names, timestamps and file bodies are modelled as \<open>string\<close>: lists of 8-bit
  characters, read as the code points U+0000 to U+00FF of Python's \<open>str\<close>. On such
  strings the definitions below are the built-ins themselves, character class by
  character class. Exceptions are values of \<open>py_error\<close>; a computation that may raise
  returns \<open>py_error + 'a\<close>.
\<close>

datatype py_error = ValueError | OverflowError | ZeroDivisionError | OSError

definition bind_err :: "py_error + 'a \<Rightarrow> ('a \<Rightarrow> py_error + 'b) \<Rightarrow> py_error + 'b" where
  "bind_err r f = (case r of Inl e \<Rightarrow> Inl e | Inr v \<Rightarrow> f v)"

text \<open>\<open>str.isspace\<close> on one character (also the class \<open>\s\<close> of \<open>re\<close> and what
  \<open>str.strip\<close> removes): TAB, LF, VT, FF, CR, FS, GS, RS, US, the space, NEL (U+0085) and
  the no-break space (U+00A0).\<close>

definition is_space :: "char \<Rightarrow> bool" where
  "is_space c =
     (let n = (of_char c :: nat) in (9 \<le> n \<and> n \<le> 13) \<or> (28 \<le> n \<and> n \<le> 32) \<or> n = 133 \<or> n = 160)"

text \<open>The whitespace that \<open>int()\<close> skips around a literal: as above, without the four
  separators FS, GS, RS and US.\<close>

definition is_cspace :: "char \<Rightarrow> bool" where
  "is_cspace c =
     (let n = (of_char c :: nat) in (9 \<le> n \<and> n \<le> 13) \<or> n = 32 \<or> n = 133 \<or> n = 160)"

text \<open>The decimal digits \<open>0\<close> to \<open>9\<close>: the digits \<open>int()\<close> reads and the class \<open>\d\<close>.\<close>

definition is_digit :: "char \<Rightarrow> bool" where
  "is_digit c = (let n = (of_char c :: nat) in 48 \<le> n \<and> n \<le> 57)"

definition digit_val :: "char \<Rightarrow> nat" where
  "digit_val c = of_char c - 48"

definition digit_char :: "nat \<Rightarrow> char" where
  "digit_char n = char_of (48 + n)"

text \<open>The characters \<open>str.isdigit\<close> accepts: the decimal digits and the superscripts
  two, three and one (U+00B2, U+00B3, U+00B9), which \<open>int()\<close> does not read.\<close>

definition isdigit_char :: "char \<Rightarrow> bool" where
  "isdigit_char c =
     (let n = (of_char c :: nat) in (48 \<le> n \<and> n \<le> 57) \<or> n = 178 \<or> n = 179 \<or> n = 185)"

text \<open>\<open>s.isdigit()\<close>: non-empty and every character accepted.\<close>

definition isdigit :: "string \<Rightarrow> bool" where
  "isdigit s = (s \<noteq> [] \<and> list_all isdigit_char s)"

definition dec_val :: "string \<Rightarrow> nat" where
  "dec_val s = foldl (\<lambda>a c. 10 * a + digit_val c) 0 s"

text \<open>The body of an integer literal: digits, single underscores only between digits.\<close>

fun int_body_ok :: "string \<Rightarrow> bool" where
  "int_body_ok [] = False"
| "int_body_ok [c] = is_digit c"
| "int_body_ok (c # d # r) =
     (is_digit c \<and> (if d = CHR ''_'' then int_body_ok r else int_body_ok (d # r)))"

text \<open>\<open>int(s)\<close> in base 10; \<open>None\<close> stands for the \<open>ValueError\<close>.\<close>

definition py_int :: "string \<Rightarrow> int option" where
  "py_int s =
     (let t = rev (dropWhile is_cspace (rev (dropWhile is_cspace s)));
          neg = (t \<noteq> [] \<and> hd t = CHR ''-'');
          body = (if t \<noteq> [] \<and> (hd t = CHR ''-'' \<or> hd t = CHR ''+'') then tl t else t)
      in if int_body_ok body
         then Some ((if neg then - 1 else 1) * int (dec_val (filter is_digit body)))
         else None)"

definition int_e :: "string \<Rightarrow> py_error + int" where
  "int_e s = (case py_int s of None \<Rightarrow> Inl ValueError | Some v \<Rightarrow> Inr v)"

text \<open>\<open>str(n)\<close> for integers.\<close>

fun str_nat :: "nat \<Rightarrow> string" where
  "str_nat n = (if n < 10 then [digit_char n] else str_nat (n div 10) @ [digit_char (n mod 10)])"

declare str_nat.simps [simp del]

definition str_int :: "int \<Rightarrow> string" where
  "str_int i = (if i < 0 then CHR ''-'' # str_nat (nat (- i)) else str_nat (nat i))"

text \<open>\<open>s.split(c)\<close> for a one-character separator: always at least one piece.\<close>

fun py_split :: "char \<Rightarrow> string \<Rightarrow> string list" where
  "py_split c [] = [[]]"
| "py_split c (x # xs) =
     (if x = c then [] # py_split c xs
      else (case py_split c xs of [] \<Rightarrow> [[x]] | p # ps \<Rightarrow> (x # p) # ps))"

text \<open>\<open>s.split(c, 1)\<close>: split at the first separator only.\<close>

definition py_split1 :: "char \<Rightarrow> string \<Rightarrow> string list" where
  "py_split1 c s =
     (if c \<in> set s then [takeWhile (\<lambda>x. x \<noteq> c) s, tl (dropWhile (\<lambda>x. x \<noteq> c) s)] else [s])"

definition startswith :: "string \<Rightarrow> string \<Rightarrow> bool" where
  "startswith s p = (take (length p) s = p)"

definition endswith :: "string \<Rightarrow> string \<Rightarrow> bool" where
  "endswith s p = (length p \<le> length s \<and> drop (length s - length p) s = p)"

text \<open>\<open>sub in s\<close>.\<close>

fun py_in :: "string \<Rightarrow> string \<Rightarrow> bool" where
  "py_in sub [] = (sub = [])"
| "py_in sub (x # xs) = (startswith (x # xs) sub \<or> py_in sub xs)"

text \<open>\<open>s.replace(old, new)\<close> for a non-empty \<open>old\<close>: leftmost non-overlapping occurrences.\<close>

fun py_replace :: "string \<Rightarrow> string \<Rightarrow> string \<Rightarrow> string" where
  "py_replace old new [] = []"
| "py_replace old new (x # xs) =
     (if old \<noteq> [] \<and> startswith (x # xs) old
      then new @ py_replace old new (drop (length old - 1) xs)
      else x # py_replace old new xs)"

definition py_strip :: "string \<Rightarrow> string" where
  "py_strip s = rev (dropWhile is_space (rev (dropWhile is_space s)))"

definition zfill :: "nat \<Rightarrow> string \<Rightarrow> string" where
  "zfill w s =
     (if s \<noteq> [] \<and> (hd s = CHR ''+'' \<or> hd s = CHR ''-'')
      then hd s # replicate (w - length s) CHR ''0'' @ tl s
      else replicate (w - length s) CHR ''0'' @ s)"

definition ljust :: "nat \<Rightarrow> string \<Rightarrow> string" where
  "ljust w s = s @ replicate (w - length s) CHR '' ''"

definition rjust :: "nat \<Rightarrow> string \<Rightarrow> string" where
  "rjust w s = replicate (w - length s) CHR '' '' @ s"

subsection \<open>\<open>datetime\<close>\<close>

text \<open>
  A naive \<open>datetime\<close> built from five integers (seconds and microseconds are always 0 in
  this program): year, month, day, hour, minute, compared lexicographically as Python
  does. The constructor raises \<open>ValueError\<close> outside the calendar.
\<close>

type_synonym datetime = "int \<times> int \<times> int \<times> int \<times> int"

definition is_leap :: "int \<Rightarrow> bool" where
  "is_leap y = (y mod 4 = 0 \<and> (y mod 100 \<noteq> 0 \<or> y mod 400 = 0))"

definition days_in_month :: "int \<Rightarrow> int \<Rightarrow> int" where
  "days_in_month y m =
     (if m = 2 then (if is_leap y then 29 else 28)
      else if m = 4 \<or> m = 6 \<or> m = 9 \<or> m = 11 then 30 else 31)"

definition valid_datetime :: "int \<Rightarrow> int \<Rightarrow> int \<Rightarrow> int \<Rightarrow> int \<Rightarrow> bool" where
  "valid_datetime y m d h mi =
     (1 \<le> y \<and> y \<le> 9999 \<and> 1 \<le> m \<and> m \<le> 12 \<and> 1 \<le> d \<and> d \<le> days_in_month y m
      \<and> 0 \<le> h \<and> h \<le> 23 \<and> 0 \<le> mi \<and> mi \<le> 59)"

definition mk_datetime :: "int \<Rightarrow> int \<Rightarrow> int \<Rightarrow> int \<Rightarrow> int \<Rightarrow> py_error + datetime" where
  "mk_datetime y m d h mi =
     (if valid_datetime y m d h mi then Inr (y, m, d, h, mi) else Inl ValueError)"

definition sentinel :: datetime where
  "sentinel = (1900, 1, 1, 0, 0)"

section \<open>find_duplicates.py\<close>

subsection \<open>\<open>parse_filename\<close>\<close>

definition parse_filename :: "string \<Rightarrow> (string \<times> string \<times> string \<times> string) option" where
  "parse_filename filename =
     (if \<not> startswith filename ''SpeakingTest_'' \<or> \<not> endswith filename ''.txt'' then None
      else
        let name = py_replace ''.txt'' '''' filename;
            parts = py_split CHR ''_'' name
        in if length parts \<ge> 4 \<and> parts ! 0 = ''SpeakingTest''
           then Some (parts ! 1, parts ! 2, parts ! 3, filename)
           else None)"

subsection \<open>\<open>normalize_student_id\<close>\<close>

definition normalize_student_id :: "string \<Rightarrow> py_error + string" where
  "normalize_student_id student_id =
     (if isdigit student_id
      then bind_err (int_e student_id) (\<lambda>v. Inr (str_int v))
      else Inr student_id)"

subsection \<open>\<open>get_timestamp_for_sorting\<close>\<close>

text \<open>The body of the \<open>try\<close> block: \<open>Inl\<close> is a raised exception, \<open>Inr None\<close> is falling
  out of the \<open>if\<close> without returning.\<close>

definition timestamp_try :: "string \<Rightarrow> py_error + datetime option" where
  "timestamp_try timestamp_str =
     (let parts = py_split CHR ''.'' timestamp_str in
      if length parts = 4 then
        let year = parts ! 0; month = parts ! 1; day = parts ! 2; time = parts ! 3;
            year = (if length year = 2 then ''20'' @ year else year);
            hour = (if length time \<ge> 4 then take 2 time else ''00'');
            minute = (if length time \<ge> 4 then take 2 (drop 2 time) else ''00'')
        in bind_err (int_e year) (\<lambda>y.
           bind_err (int_e month) (\<lambda>m.
           bind_err (int_e day) (\<lambda>d.
           bind_err (int_e hour) (\<lambda>h.
           bind_err (int_e minute) (\<lambda>mi.
           bind_err (mk_datetime y m d h mi) (\<lambda>dt. Inr (Some dt)))))))
      else Inr None)"

definition get_timestamp_for_sorting :: "string \<Rightarrow> datetime" where
  "get_timestamp_for_sorting timestamp_str =
     (case timestamp_try timestamp_str of
        Inr (Some dt) \<Rightarrow> dt
      | _ \<Rightarrow> sentinel)"

subsection \<open>The file system seen by the scripts\<close>

text \<open>
  A directory is the list of its entries in the order \<open>os.listdir\<close> returns them, each
  with what lies under the name: a regular file with its text, a regular file that
  cannot be read as text, or a subdirectory. A file in the class folder is addressed by
  its name: \<open>os.path.join(class_folder, filename)\<close>.
\<close>

datatype node = File string | Unreadable | Directory

type_synonym folder = "(string \<times> node) list"

definition isfile :: "node \<Rightarrow> bool" where
  "isfile n = (n \<noteq> Directory)"

definition path_exists :: "folder \<Rightarrow> string \<Rightarrow> bool" where
  "path_exists d name = (map_of d name \<noteq> None)"

record fs =
  class_dir :: folder
  duplicates_dir :: folder

subsection \<open>\<open>find_duplicates_in_folder\<close>\<close>

text \<open>The dictionary stored per file (without the \<open>filepath\<close>, see above).\<close>

record file_info =
  fi_filename :: string
  fi_class :: string
  fi_student_id :: string
  fi_timestamp :: string
  fi_datetime :: datetime

text \<open>\<open>student_files[key].append(v)\<close> on a \<open>defaultdict(list)\<close>, which iterates in the
  order the keys were first inserted.\<close>

fun dict_append :: "'k \<Rightarrow> 'v \<Rightarrow> ('k \<times> 'v list) list \<Rightarrow> ('k \<times> 'v list) list" where
  "dict_append k v [] = [(k, [v])]"
| "dict_append k v ((k', vs) # d) =
     (if k = k' then (k', vs @ [v]) # d else (k', vs) # dict_append k v d)"

type_synonym student_groups = "((string \<times> string) \<times> file_info list) list"

fun scan_folder :: "folder \<Rightarrow> student_groups \<Rightarrow> py_error + student_groups" where
  "scan_folder [] student_files = Inr student_files"
| "scan_folder ((filename, n) # rest) student_files =
     (if \<not> isfile n then scan_folder rest student_files
      else if py_in ''_PROCESSED.txt'' filename then scan_folder rest student_files
      else case parse_filename filename of
        None \<Rightarrow> scan_folder rest student_files
      | Some (class_number, student_id, timestamp, _) \<Rightarrow>
          bind_err (normalize_student_id student_id) (\<lambda>normalized_id.
            scan_folder rest
              (dict_append (class_number, normalized_id)
                 \<lparr>fi_filename = filename, fi_class = class_number, fi_student_id = student_id,
                  fi_timestamp = timestamp,
                  fi_datetime = get_timestamp_for_sorting timestamp\<rparr>
                 student_files)))"

text \<open>One result tuple: filename, class, student id, timestamp, \<open>is_duplicate\<close>.\<close>

type_synonym dup = "string \<times> string \<times> string \<times> string \<times> bool"

text \<open>\<open>files.sort(key=...)\<close> is a stable sort, as \<open>sort_key\<close> is; then every index but the
  last is flagged.\<close>

definition flag_group :: "file_info list \<Rightarrow> dup list" where
  "flag_group files =
     (if length files > 1 then
        let sorted_files = sort_key fi_datetime files in
        map (\<lambda>(i, file_info).
               (fi_filename file_info, fi_class file_info, fi_student_id file_info,
                fi_timestamp file_info, i < length sorted_files - 1))
            (enumerate 0 sorted_files)
      else [])"

definition find_duplicates_in_folder :: "folder \<Rightarrow> py_error + dup list" where
  "find_duplicates_in_folder class_folder =
     bind_err (scan_folder class_folder [])
       (\<lambda>student_files. Inr (concat (map (\<lambda>(key, files). flag_group files) student_files)))"

subsection \<open>\<open>move_duplicates\<close>\<close>

text \<open>\<open>os.path.splitext\<close> on a bare file name (no path separator).\<close>

definition splitext :: "string \<Rightarrow> string \<times> string" where
  "splitext p =
     (let dotIndex = length p - (length (takeWhile (\<lambda>c. c \<noteq> CHR ''.'') (rev p)) + 1) in
      if CHR ''.'' \<in> set p \<and> \<not> list_all (\<lambda>c. c = CHR ''.'') (take dotIndex p)
      then (take dotIndex p, drop dotIndex p)
      else (p, []))"

definition dup_name :: "string \<Rightarrow> string \<Rightarrow> nat \<Rightarrow> string" where
  "dup_name base ext counter = base @ ''_dup'' @ str_nat counter @ ext"

text \<open>The decimal rendering of the counter is injective, so the renaming loop below
  cannot run forever in a finite folder.\<close>

lemma dec_val_snoc: "dec_val (s @ [c]) = 10 * dec_val s + digit_val c"
  by (simp add: dec_val_def)

lemma digit_val_digit_char: "n < 10 \<Longrightarrow> digit_val (digit_char n) = n"
  by (simp add: digit_val_def digit_char_def)

lemma dec_val_str_nat: "dec_val (str_nat n) = n"
proof (induction n rule: str_nat.induct)
  case (1 n)
  show ?case
  proof (cases "n < 10")
    case True
    then show ?thesis
      by (subst str_nat.simps) (simp add: dec_val_def digit_val_digit_char)
  next
    case False
    then have "dec_val (str_nat (n div 10)) = n div 10" using "1.IH" by simp
    with False show ?thesis
      by (subst str_nat.simps) (simp add: dec_val_snoc digit_val_digit_char)
  qed
qed

lemma inj_dup_name: "inj (dup_name base ext)"
proof (rule injI)
  fix x y assume "dup_name base ext x = dup_name base ext y"
  then have "str_nat x = str_nat y" by (simp add: dup_name_def)
  then have "dec_val (str_nat x) = dec_val (str_nat y)" by simp
  then show "x = y" by (simp add: dec_val_str_nat)
qed

lemma finite_dup_names: "finite {k. path_exists d (dup_name base ext k)}"
proof -
  have "{k. path_exists d (dup_name base ext k)} \<subseteq> dup_name base ext -` (fst ` set d)"
    by (auto simp: path_exists_def map_of_eq_None_iff)
  moreover have "finite (dup_name base ext -` (fst ` set d))"
    by (intro finite_vimageI inj_dup_name) simp
  ultimately show ?thesis by (rule finite_subset)
qed

text \<open>
  The loop \<^verbatim>\<open>while os.path.exists(dest_path): dest_path = f"{base}_dup{counter}{ext}"; counter += 1\<close>
  with its state \<open>(dest_path, counter)\<close>.
\<close>

function dup_loop :: "folder \<Rightarrow> string \<Rightarrow> string \<Rightarrow> string \<Rightarrow> nat \<Rightarrow> string" where
  "dup_loop d base ext dest_path counter =
     (if path_exists d dest_path
      then dup_loop d base ext (dup_name base ext counter) (counter + 1)
      else dest_path)"
  by pat_completeness auto
termination
proof (relation "measure (\<lambda>(d, base, ext, dest_path, counter).
          card {k. counter \<le> k \<and> path_exists d (dup_name base ext k)}
          + (if path_exists d dest_path then 1 else 0))")
  show "wf (measure (\<lambda>(d, base, ext, dest_path, counter).
          card {k. counter \<le> k \<and> path_exists d (dup_name base ext k)}
          + (if path_exists d dest_path then 1 else 0)))"
    by simp
next
  fix d :: folder and base ext dest_path :: string and counter :: nat
  assume ex: "path_exists d dest_path"
  let ?A = "\<lambda>c. {k. c \<le> k \<and> path_exists d (dup_name base ext k)}"
  have fin: "finite (?A counter)"
    by (rule finite_subset [OF _ finite_dup_names [of d base ext]]) auto
  have "card (?A (counter + 1)) + (if path_exists d (dup_name base ext counter) then 1 else 0)
        = card (?A counter)"
  proof (cases "path_exists d (dup_name base ext counter)")
    case True
    have "?A counter = insert counter (?A (counter + 1))" using True by auto
    moreover have "counter \<notin> ?A (counter + 1)" by simp
    moreover have "finite (?A (counter + 1))"
      by (rule finite_subset [OF _ fin]) auto
    ultimately show ?thesis using True by simp
  next
    case False
    have "?A counter = ?A (counter + 1)"
    proof -
      have "k \<noteq> counter" if "path_exists d (dup_name base ext k)" for k
        using that False by auto
      then show ?thesis by (auto simp: Suc_le_eq order_less_le)
    qed
    then show ?thesis using False by simp
  qed
  then show "((d, base, ext, dup_name base ext counter, counter + 1), (d, base, ext, dest_path, counter))
        \<in> measure (\<lambda>(d, base, ext, dest_path, counter).
          card {k. counter \<le> k \<and> path_exists d (dup_name base ext k)}
          + (if path_exists d dest_path then 1 else 0))"
    using ex by simp
qed

declare dup_loop.simps [simp del]

text \<open>\<open>shutil.move(filepath, dest_path)\<close> for a file of the class folder. It raises when
  the source is gone, and whenever the operating system refuses (a lock, a permission):
  the latter is the parameter \<open>refuses\<close>.\<close>

definition shutil_move :: "(string \<Rightarrow> bool) \<Rightarrow> string \<Rightarrow> string \<Rightarrow> fs \<Rightarrow> py_error + fs" where
  "shutil_move refuses filename dest_path st =
     (case map_of (class_dir st) filename of
        None \<Rightarrow> Inl OSError
      | Some n \<Rightarrow>
          if refuses filename then Inl OSError
          else Inr \<lparr>class_dir = filter (\<lambda>e. fst e \<noteq> filename) (class_dir st),
                    duplicates_dir = duplicates_dir st @ [(dest_path, n)]\<rparr>)"

definition dest_for :: "folder \<Rightarrow> string \<Rightarrow> string" where
  "dest_for d filename =
     (if path_exists d filename
      then (let (base, ext) = splitext filename in dup_loop d base ext filename 1)
      else filename)"

fun move_loop :: "(string \<Rightarrow> bool) \<Rightarrow> dup list \<Rightarrow> fs \<Rightarrow> nat \<Rightarrow> fs \<times> nat" where
  "move_loop refuses [] st moved_count = (st, moved_count)"
| "move_loop refuses ((filename, class_num, student_id, timestamp, is_duplicate) # rest)
       st moved_count =
     (if is_duplicate then
        (case shutil_move refuses filename (dest_for (duplicates_dir st) filename) st of
           Inr st' \<Rightarrow> move_loop refuses rest st' (moved_count + 1)
         | Inl e \<Rightarrow> move_loop refuses rest st moved_count)
      else move_loop refuses rest st moved_count)"

definition move_duplicates :: "(string \<Rightarrow> bool) \<Rightarrow> dup list \<Rightarrow> fs \<Rightarrow> fs \<times> nat" where
  "move_duplicates refuses duplicates st = move_loop refuses duplicates st 0"

text \<open>The body of \<open>main\<close>'s loop for one class folder: the Duplicate Resolver run on it.\<close>

definition resolve_class :: "(string \<Rightarrow> bool) \<Rightarrow> fs \<Rightarrow> py_error + (fs \<times> nat)" where
  "resolve_class refuses st =
     bind_err (find_duplicates_in_folder (class_dir st)) (\<lambda>duplicates.
       if duplicates \<noteq> [] then
         let dup_count = length (filter (\<lambda>(_, _, _, _, is_dup). is_dup) duplicates) in
         if dup_count > 0 then Inr (move_duplicates refuses duplicates st) else Inr (st, 0)
       else Inr (st, 0))"

section \<open>speaking_test.py: the timestamp parsing inlined in \<open>find_and_move_duplicates\<close>\<close>

definition app_timestamp_try :: "string \<Rightarrow> py_error + datetime" where
  "app_timestamp_try timestamp =
     (let ts_parts = py_split CHR ''.'' timestamp in
      if length ts_parts = 4 then
        let year = ts_parts ! 0; month = ts_parts ! 1; day = ts_parts ! 2; time = ts_parts ! 3;
            year = (if length year = 2 then ''20'' @ year else year);
            hour = (if length time \<ge> 2 then take 2 time else ''00'');
            minute = (if length time \<ge> 4 then take 2 (drop 2 time) else ''00'')
        in bind_err (int_e year) (\<lambda>y.
           bind_err (int_e month) (\<lambda>m.
           bind_err (int_e day) (\<lambda>d.
           bind_err (int_e hour) (\<lambda>h.
           bind_err (int_e minute) (\<lambda>mi.
           mk_datetime y m d h mi)))))
      else Inr sentinel)"

definition app_timestamp :: "string \<Rightarrow> datetime" where
  "app_timestamp timestamp =
     (case app_timestamp_try timestamp of Inr dt \<Rightarrow> dt | Inl _ \<Rightarrow> sentinel)"

section \<open>process_and_compile.py\<close>

subsection \<open>Binary floating point\<close>

text \<open>
  \<open>calculate_score\<close> computes its percentage in binary64 arithmetic:
  \<^verbatim>\<open>round((total_score / max_score) * 100)\<close>. A finite binary64 value is written here as
  \<open>Fin m e\<close>, standing for \<open>m * 2 ^ e\<close> with integers \<open>m\<close> and \<open>e\<close>; \<open>Inf\<close> is an infinity of
  either sign. Every operation returns the representable value nearest to the exact
  result, ties going to the even significand, computed in integer arithmetic.
\<close>

datatype pyfloat = Fin int int | Inf

text \<open>The integer nearest to \<open>n / d\<close> for \<open>d > 0\<close>, ties to the even one.\<close>

definition round_half_even :: "int \<Rightarrow> int \<Rightarrow> int" where
  "round_half_even n d =
     (let q = n div d; r = n mod d in
      if 2 * r > d \<or> (2 * r = d \<and> odd q) then q + 1 else q)"

text \<open>\<open>\<lfloor>log\<^sub>2 (n / d)\<rfloor>\<close> for positive \<open>n\<close> and \<open>d\<close>.\<close>

definition ilog2 :: "int \<Rightarrow> int \<Rightarrow> int" where
  "ilog2 n d =
     (let k = bitlen n - bitlen d in
      if (if 0 \<le> k then d * 2 ^ nat k \<le> n else d \<le> n * 2 ^ nat (- k)) then k else k - 1)"

text \<open>
  The binary64 value nearest to \<open>n / d\<close> for \<open>d > 0\<close>: a significand of 53 bits, that is a
  multiple of \<open>2 ^ e\<close> for \<open>e = \<lfloor>log\<^sub>2 |n / d|\<rfloor> - 52\<close>, but of no less than \<open>2 ^ -1074\<close>
  (the subnormal spacing); \<open>Inf\<close> when the rounded magnitude reaches \<open>2 ^ 1024\<close>.
\<close>

definition fl_round :: "int \<Rightarrow> int \<Rightarrow> pyfloat" where
  "fl_round n d =
     (if n = 0 then Fin 0 0
      else
        let e = max (ilog2 \<bar>n\<bar> d - 52) (- 1074);
            m = (if 0 \<le> e then round_half_even n (d * 2 ^ nat e)
                 else round_half_even (n * 2 ^ nat (- e)) d)
        in if 0 \<le> e \<and> 2 ^ 1024 \<le> \<bar>m\<bar> * 2 ^ nat e then Inf else Fin m e)"

text \<open>\<open>a / b\<close> on two \<open>int\<close>s: the quotient correctly rounded; \<open>ZeroDivisionError\<close> for a
  zero divisor, \<open>OverflowError\<close> when the quotient is too large for a float.\<close>

definition int_truediv :: "int \<Rightarrow> int \<Rightarrow> py_error + pyfloat" where
  "int_truediv a b =
     (if b = 0 then Inl ZeroDivisionError
      else case (if b < 0 then fl_round (- a) (- b) else fl_round a b) of
        Inf \<Rightarrow> Inl OverflowError
      | Fin m e \<Rightarrow> Inr (Fin m e))"

text \<open>\<open>x * k\<close> for a float \<open>x\<close> and a non-zero \<open>int\<close> \<open>k\<close> that converts to a float exactly
  (here \<open>k = 100\<close>). Overflow gives an infinity, not an exception.\<close>

definition float_mul_int :: "pyfloat \<Rightarrow> int \<Rightarrow> pyfloat" where
  "float_mul_int x k =
     (case x of
        Inf \<Rightarrow> Inf
      | Fin m e \<Rightarrow>
          if 0 \<le> e then fl_round (m * k * 2 ^ nat e) 1 else fl_round (m * k) (2 ^ nat (- e)))"

text \<open>\<open>round(x)\<close> with one argument: the nearest \<open>int\<close>, ties to even; \<open>OverflowError\<close> on
  an infinity.\<close>

definition py_round :: "pyfloat \<Rightarrow> py_error + int" where
  "py_round x =
     (case x of
        Inf \<Rightarrow> Inl OverflowError
      | Fin m e \<Rightarrow> Inr (if 0 \<le> e then m * 2 ^ nat e else round_half_even m (2 ^ nat (- e))))"

subsection \<open>\<open>calculate_score\<close>\<close>

text \<open>One parsed answer line: question number, points, binary string, file name.\<close>

type_synonym question = "int \<times> int \<times> string \<times> string"

text \<open>\<open>d[k] = v\<close> on a \<open>dict\<close>: a key already present keeps its place in the iteration
  order.\<close>

fun dict_set :: "'k \<Rightarrow> 'v \<Rightarrow> ('k \<times> 'v) list \<Rightarrow> ('k \<times> 'v) list" where
  "dict_set k v [] = [(k, v)]"
| "dict_set k v ((k', v') # d) = (if k = k' then (k', v) # d else (k', v') # dict_set k v d)"

definition py_max :: "int list \<Rightarrow> int" where
  "py_max xs = fold max (tl xs) (hd xs)"

text \<open>The dictionary \<open>question_dict\<close> after the first loop.\<close>

definition question_dict :: "question list \<Rightarrow> (int \<times> int) list" where
  "question_dict questions =
     foldl (\<lambda>d (q_num, points, binary, filename). dict_set q_num points d) [] questions"

definition calculate_score :: "question list \<Rightarrow> py_error + (int \<times> int \<times> int \<times> int)" where
  "calculate_score questions =
     (let question_dict = question_dict questions
      in if question_dict = [] then Inr (0, 0, 0, 0)
         else
           let all_points = map snd question_dict;
               max_point_value = (if all_points \<noteq> [] then py_max all_points else 5);
               total_questions = int (length question_dict);
               total_score = sum_list (map snd question_dict);
               max_score = total_questions * max_point_value
           in bind_err
                (if max_score > 0
                 then bind_err (int_truediv total_score max_score) (\<lambda>x. py_round (float_mul_int x 100))
                 else Inr 0)
                (\<lambda>percentage. Inr (total_score, max_score, percentage, total_questions)))"

section \<open>Timestamps: what counts as malformed\<close>

text \<open>
  The vocabulary of the timestamp properties. A field is a decimal numeral when it is a
  non-empty run of the digits \<open>0\<close> to \<open>9\<close>. A timestamp has the wrong component count when
  splitting at the dots does not give four pieces; a field is non-numeric when \<open>int()\<close>
  rejects the text the script passes to it; the calendar date is invalid when the
  \<open>datetime\<close> constructor rejects the five numbers. \<open>hour_text\<close> and \<open>minute_text\<close> are the
  texts the script reads the hour and the minute from.
\<close>

definition decimal :: "string \<Rightarrow> bool" where
  "decimal s = (s \<noteq> [] \<and> list_all is_digit s)"

definition year_text :: "string \<Rightarrow> string" where
  "year_text y = (if length y = 2 then ''20'' @ y else y)"

definition hour_text :: "string \<Rightarrow> string" where
  "hour_text t = (if 4 \<le> length t then take 2 t else ''00'')"

definition minute_text :: "string \<Rightarrow> string" where
  "minute_text t = (if 4 \<le> length t then take 2 (drop 2 t) else ''00'')"

definition year_value :: "string \<Rightarrow> int" where
  "year_value ys = (if length ys = 2 then 2000 + int (dec_val ys) else int (dec_val ys))"

definition wrong_component_count :: "string \<Rightarrow> bool" where
  "wrong_component_count ts = (length (py_split CHR ''.'' ts) \<noteq> 4)"

definition non_numeric_field :: "string \<Rightarrow> bool" where
  "non_numeric_field ts =
     (let p = py_split CHR ''.'' ts in
      py_int (year_text (p ! 0)) = None \<or> py_int (p ! 1) = None \<or> py_int (p ! 2) = None
      \<or> py_int (hour_text (p ! 3)) = None \<or> py_int (minute_text (p ! 3)) = None)"

definition invalid_calendar_date :: "string \<Rightarrow> bool" where
  "invalid_calendar_date ts =
     (let p = py_split CHR ''.'' ts in
      case (py_int (year_text (p ! 0)), py_int (p ! 1), py_int (p ! 2),
            py_int (hour_text (p ! 3)), py_int (minute_text (p ! 3))) of
        (Some y, Some m, Some d, Some h, Some mi) \<Rightarrow> \<not> valid_datetime y m d h mi
      | _ \<Rightarrow> False)"

section \<open>Duplicate Resolver: auxiliary notions for the proofs\<close>

text \<open>
  \<open>norm_id\<close> is the value \<open>normalize_student_id\<close> returns where it returns; \<open>entry_ok\<close> says
  that the scan loop does not raise on a directory entry (its student id, if it has
  one, is not one on which \<open>normalize_student_id\<close> raises) and \<open>scan_ok\<close> that it raises
  on none;
  \<open>entry_info\<close> is what one iteration of the scan loop stores for a directory entry
  (\<open>None\<close> when the entry is skipped), \<open>collect\<close> is the grouping the loop performs,
  \<open>members\<close> the bucket of a key, and \<open>dup_names\<close> the names flagged \<open>is_duplicate\<close> in a
  result list.
\<close>

definition norm_id :: "string \<Rightarrow> string" where
  "norm_id s = (case normalize_student_id s of Inr n \<Rightarrow> n | Inl e \<Rightarrow> s)"

definition entry_ok :: "string \<times> node \<Rightarrow> bool" where
  "entry_ok e =
     (isfile (snd e) \<and> \<not> py_in ''_PROCESSED.txt'' (fst e) \<longrightarrow>
        (case parse_filename (fst e) of
           None \<Rightarrow> True
         | Some (class_number, student_id, timestamp, filename) \<Rightarrow>
             normalize_student_id student_id = Inr (norm_id student_id)))"

definition scan_ok :: "folder \<Rightarrow> bool" where
  "scan_ok ls = (\<forall>e\<in>set ls. entry_ok e)"

definition entry_info :: "string \<times> node \<Rightarrow> ((string \<times> string) \<times> file_info) option" where
  "entry_info e =
     (if \<not> isfile (snd e) \<or> py_in ''_PROCESSED.txt'' (fst e) then None
      else case parse_filename (fst e) of
        None \<Rightarrow> None
      | Some (class_number, student_id, timestamp, _) \<Rightarrow>
          Some ((class_number, norm_id student_id),
                \<lparr>fi_filename = fst e, fi_class = class_number, fi_student_id = student_id,
                 fi_timestamp = timestamp,
                 fi_datetime = get_timestamp_for_sorting timestamp\<rparr>))"

definition collect :: "('k \<times> 'v) list \<Rightarrow> ('k \<times> 'v list) list \<Rightarrow> ('k \<times> 'v list) list" where
  "collect kvs g = foldl (\<lambda>g kv. dict_append (fst kv) (snd kv) g) g kvs"

definition members :: "'k \<Rightarrow> ('k \<times> 'v) list \<Rightarrow> 'v list" where
  "members k kvs = map snd (filter (\<lambda>kv. fst kv = k) kvs)"

definition mk_dup :: "bool \<Rightarrow> file_info \<Rightarrow> dup" where
  "mk_dup b f = (fi_filename f, fi_class f, fi_student_id f, fi_timestamp f, b)"

definition dup_names :: "dup list \<Rightarrow> string list" where
  "dup_names ds = map fst (filter (\<lambda>d. snd (snd (snd (snd d)))) ds)"

section \<open>Scores: auxiliary notions for the proofs\<close>

text \<open>The question number and the points of an answer line.\<close>

definition q_points :: "question \<Rightarrow> int \<times> int" where
  "q_points q = (fst q, fst (snd q))"

section \<open>Facts about the built-ins\<close>

lemma bind_err_simps [simp]:
  "bind_err (Inl e) f = Inl e" "bind_err (Inr v) f = f v"
  by (simp_all add: bind_err_def)

lemma is_digit_not_special:
  "is_digit c \<Longrightarrow> \<not> is_cspace c \<and> \<not> is_space c \<and> c \<noteq> CHR ''-'' \<and> c \<noteq> CHR ''+'' \<and> c \<noteq> CHR ''_'' \<and> c \<noteq> CHR ''.''"
  by (auto simp: is_digit_def is_cspace_def is_space_def Let_def)

lemma decimal_isdigit: "decimal s \<Longrightarrow> isdigit s"
  by (auto simp: decimal_def isdigit_def is_digit_def isdigit_char_def list_all_iff Let_def)

lemma dropWhile_digits:
  "list_all is_digit s \<Longrightarrow> dropWhile is_cspace s = s"
  by (cases s) (auto simp: is_digit_not_special)

lemma int_body_ok_digits:
  "s \<noteq> [] \<Longrightarrow> list_all is_digit s \<Longrightarrow> int_body_ok s"
  by (induction s rule: int_body_ok.induct) (auto simp: is_digit_not_special)

lemma filter_digits: "list_all is_digit s \<Longrightarrow> filter is_digit s = s"
  by (induction s) auto

lemma py_int_digits:
  assumes "decimal s" shows "py_int s = Some (int (dec_val s))"
proof -
  from assms have ne: "s \<noteq> []" and ds: "list_all is_digit s" by (auto simp: decimal_def)
  have r: "list_all is_digit (rev s)" using ds by (simp add: list_all_iff)
  have t: "rev (dropWhile is_cspace (rev (dropWhile is_cspace s))) = s"
    using ds r by (simp add: dropWhile_digits)
  have h: "is_digit (hd s)" using ne ds by (cases s) auto
  show ?thesis
    unfolding py_int_def t Let_def using ne h ds
    by (auto simp: is_digit_not_special int_body_ok_digits filter_digits)
qed

lemma int_e_digits: "decimal s \<Longrightarrow> int_e s = Inr (int (dec_val s))"
  by (simp add: int_e_def py_int_digits)

lemma dec_val_append: "dec_val (a @ b) = dec_val a * 10 ^ length b + dec_val b"
proof (induction b rule: rev_induct)
  case Nil then show ?case by (simp add: dec_val_def)
next
  case (snoc c b)
  have "dec_val (a @ b @ [c]) = 10 * dec_val (a @ b) + digit_val c"
    using dec_val_snoc [of "a @ b" c] by simp
  then show ?case by (simp add: snoc.IH dec_val_snoc algebra_simps)
qed

lemma py_split_no_sep: "c \<notin> set s \<Longrightarrow> py_split c s = [s]"
  by (induction s) auto

lemma py_split_append:
  "c \<notin> set a \<Longrightarrow> py_split c (a @ c # r) = a # py_split c r"
  by (induction a) auto

lemma decimal_no_dot: "decimal s \<Longrightarrow> CHR ''.'' \<notin> set s"
  by (auto simp: decimal_def list_all_iff dest: is_digit_not_special)

lemma decimal_append: "decimal a \<Longrightarrow> decimal b \<Longrightarrow> decimal (a @ b)"
  by (auto simp: decimal_def)

lemma split_timestamp:
  assumes "decimal ys" "decimal ms" "decimal ds" "decimal t"
  shows "py_split CHR ''.'' (ys @ ''.'' @ ms @ ''.'' @ ds @ ''.'' @ t) = [ys, ms, ds, t]"
  using assms by (simp add: py_split_append py_split_no_sep decimal_no_dot)

section \<open>Timestamp parsing: round trip, sentinel, and the two copies\<close>

lemma timestamp_roundtrip:
  assumes d: "decimal ys" "decimal ms" "decimal ds" "decimal hh" "decimal mm"
    and l: "length ys = 2 \<or> length ys = 4" "length hh = 2" "length mm = 2"
    and v: "valid_datetime (if length ys = 2 then 2000 + int (dec_val ys) else int (dec_val ys))
              (int (dec_val ms)) (int (dec_val ds)) (int (dec_val hh)) (int (dec_val mm))"
  shows "get_timestamp_for_sorting (ys @ ''.'' @ ms @ ''.'' @ ds @ ''.'' @ hh @ mm) =
           (if length ys = 2 then 2000 + int (dec_val ys) else int (dec_val ys),
            int (dec_val ms), int (dec_val ds), int (dec_val hh), int (dec_val mm))"
proof -
  have sp: "py_split CHR ''.'' (ys @ ''.'' @ ms @ ''.'' @ ds @ ''.'' @ hh @ mm) = [ys, ms, ds, hh @ mm]"
    using d by (intro split_timestamp decimal_append)
  have y20: "decimal (''20'' @ ys)" using d(1) by (simp add: decimal_def is_digit_def)
  have c20: "dec_val ''20'' = 20" by (simp add: dec_val_def digit_val_def)
  have v20: "dec_val (''20'' @ ys) = 2000 + dec_val ys" if "length ys = 2"
    using that dec_val_append [of "''20''" ys] c20 by simp
  have ie: "int_e (''20'' @ ys) = Inr (int (dec_val (''20'' @ ys)))" "int_e ys = Inr (int (dec_val ys))"
    "int_e ms = Inr (int (dec_val ms))" "int_e ds = Inr (int (dec_val ds))"
    "int_e hh = Inr (int (dec_val hh))" "int_e mm = Inr (int (dec_val mm))"
    using d y20 by (simp_all add: int_e_digits)
  show ?thesis
  proof (cases "length ys = 2")
    case True
    then show ?thesis
      unfolding get_timestamp_for_sorting_def timestamp_try_def sp Let_def
      using l v ie(1) v20 by (simp add: ie(2-) mk_datetime_def)
  next
    case False
    then show ?thesis
      unfolding get_timestamp_for_sorting_def timestamp_try_def sp Let_def
      using l v by (simp add: ie mk_datetime_def)
  qed
qed

lemma timestamp_try_unfold:
  "length (py_split CHR ''.'' ts) = 4 \<Longrightarrow>
   timestamp_try ts =
     (let p = py_split CHR ''.'' ts in
      bind_err (int_e (year_text (p ! 0))) (\<lambda>y.
      bind_err (int_e (p ! 1)) (\<lambda>m.
      bind_err (int_e (p ! 2)) (\<lambda>d.
      bind_err (int_e (hour_text (p ! 3))) (\<lambda>h.
      bind_err (int_e (minute_text (p ! 3))) (\<lambda>mi.
      bind_err (mk_datetime y m d h mi) (\<lambda>dt. Inr (Some dt))))))))"
  by (simp add: timestamp_try_def Let_def year_text_def hour_text_def minute_text_def)

lemma app_timestamp_try_unfold:
  "length (py_split CHR ''.'' ts) = 4 \<Longrightarrow>
   length (py_split CHR ''.'' ts ! 3) < 2 \<or> 4 \<le> length (py_split CHR ''.'' ts ! 3) \<Longrightarrow>
   app_timestamp_try ts =
     (let p = py_split CHR ''.'' ts in
      bind_err (int_e (year_text (p ! 0))) (\<lambda>y.
      bind_err (int_e (p ! 1)) (\<lambda>m.
      bind_err (int_e (p ! 2)) (\<lambda>d.
      bind_err (int_e (hour_text (p ! 3))) (\<lambda>h.
      bind_err (int_e (minute_text (p ! 3))) (\<lambda>mi.
      mk_datetime y m d h mi))))))"
  by (auto simp add: app_timestamp_try_def Let_def year_text_def hour_text_def minute_text_def)

lemma timestamp_fields_cases:
  assumes "length (py_split CHR ''.'' ts) = 4"
  defines "p \<equiv> py_split CHR ''.'' ts"
  shows "get_timestamp_for_sorting ts =
    (case py_int (year_text (p ! 0)) of None \<Rightarrow> sentinel | Some y \<Rightarrow>
     case py_int (p ! 1) of None \<Rightarrow> sentinel | Some m \<Rightarrow>
     case py_int (p ! 2) of None \<Rightarrow> sentinel | Some d \<Rightarrow>
     case py_int (hour_text (p ! 3)) of None \<Rightarrow> sentinel | Some h \<Rightarrow>
     case py_int (minute_text (p ! 3)) of None \<Rightarrow> sentinel | Some mi \<Rightarrow>
     if valid_datetime y m d h mi then (y, m, d, h, mi) else sentinel)"
  unfolding get_timestamp_for_sorting_def timestamp_try_unfold [OF assms(1)] Let_def p_def [symmetric]
  apply (cases "py_int (year_text (p ! 0))"; simp add: int_e_def)
  apply (cases "py_int (p ! 1)"; simp)
  apply (cases "py_int (p ! 2)"; simp)
  apply (cases "py_int (hour_text (p ! 3))"; simp)
  apply (cases "py_int (minute_text (p ! 3))"; simp add: mk_datetime_def)
  done

lemma app_timestamp_fields_cases:
  assumes "length (py_split CHR ''.'' ts) = 4"
    and "length (py_split CHR ''.'' ts ! 3) < 2 \<or> 4 \<le> length (py_split CHR ''.'' ts ! 3)"
  defines "p \<equiv> py_split CHR ''.'' ts"
  shows "app_timestamp ts =
    (case py_int (year_text (p ! 0)) of None \<Rightarrow> sentinel | Some y \<Rightarrow>
     case py_int (p ! 1) of None \<Rightarrow> sentinel | Some m \<Rightarrow>
     case py_int (p ! 2) of None \<Rightarrow> sentinel | Some d \<Rightarrow>
     case py_int (hour_text (p ! 3)) of None \<Rightarrow> sentinel | Some h \<Rightarrow>
     case py_int (minute_text (p ! 3)) of None \<Rightarrow> sentinel | Some mi \<Rightarrow>
     if valid_datetime y m d h mi then (y, m, d, h, mi) else sentinel)"
  unfolding app_timestamp_def app_timestamp_try_unfold [OF assms(1,2)] Let_def p_def [symmetric]
  apply (cases "py_int (year_text (p ! 0))"; simp add: int_e_def)
  apply (cases "py_int (p ! 1)"; simp)
  apply (cases "py_int (p ! 2)"; simp)
  apply (cases "py_int (hour_text (p ! 3))"; simp)
  apply (cases "py_int (minute_text (p ! 3))"; simp add: mk_datetime_def)
  done

lemma timestamp_wrong_count:
  "wrong_component_count ts \<Longrightarrow> get_timestamp_for_sorting ts = sentinel"
  by (simp add: wrong_component_count_def get_timestamp_for_sorting_def timestamp_try_def Let_def)

lemma timestamp_non_numeric:
  assumes "length (py_split CHR ''.'' ts) = 4" "non_numeric_field ts"
  shows "get_timestamp_for_sorting ts = sentinel"
  using assms(2)
  unfolding timestamp_fields_cases [OF assms(1)] non_numeric_field_def Let_def
  by (auto split: option.splits)

lemma timestamp_invalid_date:
  assumes "length (py_split CHR ''.'' ts) = 4" "invalid_calendar_date ts"
  shows "get_timestamp_for_sorting ts = sentinel"
  using assms(2)
  unfolding timestamp_fields_cases [OF assms(1)] invalid_calendar_date_def Let_def
  by (auto split: option.splits)

lemma app_timestamp_agree:
  assumes "length (py_split CHR ''.'' ts) \<noteq> 4 \<or> length (py_split CHR ''.'' ts ! 3) < 2
            \<or> 4 \<le> length (py_split CHR ''.'' ts ! 3)"
  shows "app_timestamp ts = get_timestamp_for_sorting ts"
proof (cases "length (py_split CHR ''.'' ts) = 4")
  case False
  then show ?thesis
    by (simp add: app_timestamp_def app_timestamp_try_def get_timestamp_for_sorting_def timestamp_try_def Let_def)
next
  case True
  with assms have "length (py_split CHR ''.'' ts ! 3) < 2 \<or> 4 \<le> length (py_split CHR ''.'' ts ! 3)" by simp
  then show ?thesis
    by (simp only: app_timestamp_fields_cases [OF True] timestamp_fields_cases [OF True])
qed

lemma timestamp_short_time:
  assumes "py_split CHR ''.'' ts = [y, m, d, t]" "py_split CHR ''.'' ts' = [y, m, d, t']"
    and "length t < 4" "length t' < 4"
  shows "get_timestamp_for_sorting ts = get_timestamp_for_sorting ts'"
proof -
  have l: "length (py_split CHR ''.'' ts) = 4" "length (py_split CHR ''.'' ts') = 4"
    using assms(1,2) by simp_all
  have n: "[y, m, d, t] ! 1 = [y, m, d, t'] ! 1" "[y, m, d, t] ! 2 = [y, m, d, t'] ! 2"
    "hour_text ([y, m, d, t] ! 3) = hour_text ([y, m, d, t'] ! 3)"
    "minute_text ([y, m, d, t] ! 3) = minute_text ([y, m, d, t'] ! 3)"
    "[y, m, d, t] ! 0 = [y, m, d, t'] ! 0"
    using assms(3,4) by (simp_all add: hour_text_def minute_text_def)
  show ?thesis
    unfolding timestamp_fields_cases [OF l(1)] timestamp_fields_cases [OF l(2)] assms(1) assms(2)
    by (simp only: n)
qed

text \<open>
  C3. The claim: every valid 4-component timestamp round-trips, and every malformed
  timestamp (wrong component count, non-numeric fields, invalid calendar date) parses to
  the sentinel instant of year 1900. The script breaks the second half on a fourth
  component shorter than four characters, which it never reads. The record name
  \<open>SpeakingTest_5_3_2024.01.01.ab.txt\<close> carries the timestamp \<open>2024.01.01.ab\<close>, whose fourth
  component \<open>int()\<close> rejects; \<open>get_timestamp_for_sorting\<close> returns midnight of 2024-01-01
  for it, not the sentinel, where the copy of the parser in the application returns the
  sentinel. So the malformed record is the one kept, and the valid older record of the
  same student is the one flagged as duplicate.
\<close>

theorem get_timestamp_for_sorting_short_time_not_sentinel:
  "parse_filename ''SpeakingTest_5_3_2024.01.01.ab.txt''
     = Some (''5'', ''3'', ''2024.01.01.ab'', ''SpeakingTest_5_3_2024.01.01.ab.txt'')
   \<and> py_split CHR ''.'' ''2024.01.01.ab'' = [''2024'', ''01'', ''01'', ''ab'']
   \<and> py_int ''ab'' = None
   \<and> get_timestamp_for_sorting ''2024.01.01.ab'' = (2024, 1, 1, 0, 0)
   \<and> get_timestamp_for_sorting ''2024.01.01.ab'' \<noteq> sentinel
   \<and> app_timestamp ''2024.01.01.ab'' = sentinel
   \<and> find_duplicates_in_folder
         [(''SpeakingTest_5_3_2023.12.31.0900.txt'', File ''x''),
          (''SpeakingTest_5_3_2024.01.01.ab.txt'', File ''y'')]
       = Inr [(''SpeakingTest_5_3_2023.12.31.0900.txt'', ''5'', ''3'', ''2023.12.31.0900'', True),
              (''SpeakingTest_5_3_2024.01.01.ab.txt'', ''5'', ''3'', ''2024.01.01.ab'', False)]"
  by code_simp

theorem get_timestamp_for_sorting_short_time_not_sentinel_witness:
  "get_timestamp_for_sorting ''2024.01.01.ab'' = (2024, 1, 1, 0, 0)
   \<and> app_timestamp ''2024.01.01.ab'' = sentinel"
  using get_timestamp_for_sorting_short_time_not_sentinel by blast

text \<open>
  C4. The claim: for every timestamp string the parsing inlined in the application gives
  the same instant as the script's \<open>get_timestamp_for_sorting\<close>. The two copies guard the
  hour differently (the application reads it from a fourth component of at least two
  characters, the script only from one of at least four), so they differ on
  \<open>2024.01.01.12\<close>: noon in the application, midnight in the script. Against a record
  stamped \<open>2024.01.01.0900\<close> the application takes the first for the newer one and the
  script takes it for the older one.
\<close>

theorem app_timestamp_differs_from_script_on_short_time:
  "app_timestamp ''2024.01.01.12'' = (2024, 1, 1, 12, 0)
   \<and> get_timestamp_for_sorting ''2024.01.01.12'' = (2024, 1, 1, 0, 0)
   \<and> app_timestamp ''2024.01.01.12'' \<noteq> get_timestamp_for_sorting ''2024.01.01.12''
   \<and> app_timestamp ''2024.01.01.0900'' < app_timestamp ''2024.01.01.12''
   \<and> get_timestamp_for_sorting ''2024.01.01.12'' < get_timestamp_for_sorting ''2024.01.01.0900''"
  by code_simp

theorem app_timestamp_differs_from_script_on_short_time_witness:
  "app_timestamp ''2024.01.01.12'' = (2024, 1, 1, 12, 0)
   \<and> get_timestamp_for_sorting ''2024.01.01.12'' = (2024, 1, 1, 0, 0)"
  using app_timestamp_differs_from_script_on_short_time by blast

section \<open>Duplicate Resolver: grouping, selection, relocation\<close>

lemma normalize_student_id_norm: "normalize_student_id s = Inr n \<Longrightarrow> norm_id s = n"
  by (simp add: norm_id_def)

lemma normalize_student_id_cases:
  "normalize_student_id s = Inr (norm_id s) \<or> normalize_student_id s = Inl ValueError"
  by (cases "py_int s") (simp_all add: norm_id_def normalize_student_id_def int_e_def)

lemma scan_ok_alt: "scan_ok ls = (\<forall>e\<in>set ls. entry_ok e)"
  by (simp add: scan_ok_def)

lemma scan_ok_Cons: "scan_ok (e # ls) = (entry_ok e \<and> scan_ok ls)"
  by (simp add: scan_ok_alt)

lemma scan_ok_subset: "set ls' \<subseteq> set ls \<Longrightarrow> scan_ok ls \<Longrightarrow> scan_ok ls'"
  unfolding scan_ok_alt by blast

lemma scan_ok_mset: "mset ls' = mset ls \<Longrightarrow> scan_ok ls' = scan_ok ls"
proof -
  assume "mset ls' = mset ls"
  then have "set ls' = set ls" by (rule mset_eq_setD)
  then show ?thesis by (simp add: scan_ok_alt)
qed

lemma scan_step_skip:
  assumes "entry_info (name, n) = None" "entry_ok (name, n)"
  shows "scan_folder ((name, n) # ls) g = scan_folder ls g"
proof (cases "isfile n \<and> \<not> py_in ''_PROCESSED.txt'' name")
  case False
  then show ?thesis by auto
next
  case True
  then have "parse_filename name = None"
    using assms(1) by (auto simp: entry_info_def split: option.splits)
  then show ?thesis using True by simp
qed

lemma scan_step_keep:
  assumes "entry_info (name, n) = Some (k, v)" "entry_ok (name, n)"
  shows "scan_folder ((name, n) # ls) g = scan_folder ls (dict_append k v g)"
proof -
  from assms(1) have t: "isfile n" "\<not> py_in ''_PROCESSED.txt'' name"
    by (auto simp: entry_info_def split: if_splits)
  from assms(1) t obtain c sid ts f where
    pf: "parse_filename name = Some (c, sid, ts, f)"
    and k: "k = (c, norm_id sid)"
    and v: "v = \<lparr>fi_filename = name, fi_class = c, fi_student_id = sid,
                 fi_timestamp = ts, fi_datetime = get_timestamp_for_sorting ts\<rparr>"
    by (auto simp: entry_info_def split: option.splits)
  from assms(2) t pf have "normalize_student_id sid = Inr (norm_id sid)"
    by (simp add: entry_ok_def)
  then show ?thesis using t pf k v by simp
qed

lemma scan_step_raise:
  assumes "\<not> entry_ok (name, n)"
  shows "scan_folder ((name, n) # ls) g = Inl ValueError"
proof -
  from assms have t: "isfile n" "\<not> py_in ''_PROCESSED.txt'' name"
    by (auto simp: entry_ok_def)
  from assms t obtain c sid ts f where
    pf: "parse_filename name = Some (c, sid, ts, f)"
    and nz: "normalize_student_id sid \<noteq> Inr (norm_id sid)"
    by (auto simp: entry_ok_def split: option.splits)
  from nz normalize_student_id_cases [of sid] have "normalize_student_id sid = Inl ValueError"
    by blast
  then show ?thesis using t pf by simp
qed

lemma scan_folder_collect:
  "scan_ok ls \<Longrightarrow> scan_folder ls g = Inr (collect (List.map_filter entry_info ls) g)"
proof (induction ls arbitrary: g)
  case Nil
  then show ?case by (simp add: collect_def List.map_filter_simps)
next
  case (Cons e ls)
  obtain name n where e: "e = (name, n)" by (cases e)
  from Cons.prems have ok: "entry_ok (name, n)" "scan_ok ls" by (simp_all add: scan_ok_Cons e)
  show ?case
  proof (cases "entry_info (name, n)")
    case None
    then show ?thesis
      unfolding e scan_step_skip [OF None ok(1)]
      by (simp add: Cons.IH [OF ok(2)] List.map_filter_simps)
  next
    case (Some kv)
    obtain k v where kv: "kv = (k, v)" by (cases kv)
    show ?thesis
      unfolding e scan_step_keep [OF Some [unfolded kv] ok(1)]
      by (simp add: Cons.IH [OF ok(2)] List.map_filter_simps Some kv collect_def)
  qed
qed

lemma scan_folder_returns:
  "scan_folder ls g = Inr g' \<Longrightarrow> scan_ok ls"
proof (induction ls arbitrary: g)
  case Nil
  then show ?case by (simp add: scan_ok_alt)
next
  case (Cons e ls)
  obtain name n where e: "e = (name, n)" by (cases e)
  have ok: "entry_ok (name, n)"
  proof (rule ccontr)
    assume "\<not> entry_ok (name, n)"
    from scan_step_raise [OF this, of ls g] Cons.prems show False by (simp add: e)
  qed
  have "\<exists>g1. scan_folder ls g1 = Inr g'"
  proof (cases "entry_info (name, n)")
    case None
    from scan_step_skip [OF None ok, of ls g] Cons.prems show ?thesis by (auto simp: e)
  next
    case (Some kv)
    obtain k v where kv: "kv = (k, v)" by (cases kv)
    from scan_step_keep [OF Some [unfolded kv] ok, of ls g] Cons.prems show ?thesis
      by (auto simp: e)
  qed
  then have "scan_ok ls" using Cons.IH by blast
  with ok show ?case by (simp add: scan_ok_Cons e)
qed

lemma map_of_dict_append:
  "map_of (dict_append k v g) k' =
     (if k' = k then Some ((case map_of g k of None \<Rightarrow> [] | Some vs \<Rightarrow> vs) @ [v]) else map_of g k')"
  by (induction g) auto

lemma keys_dict_append_list:
  "map fst (dict_append k v g) = (if k \<in> fst ` set g then map fst g else map fst g @ [k])"
  by (induction g) (auto simp: rev_image_eqI)

lemma distinct_dict_append:
  "distinct (map fst g) \<Longrightarrow> distinct (map fst (dict_append k v g))"
  by (simp add: keys_dict_append_list)

lemma distinct_collect:
  "distinct (map fst g) \<Longrightarrow> distinct (map fst (collect kvs g))"
  unfolding collect_def
  by (induction kvs arbitrary: g) (simp_all add: distinct_dict_append)

lemma map_of_collect:
  "map_of (collect kvs g) k =
     (case map_of g k of
        None \<Rightarrow> (if members k kvs = [] then None else Some (members k kvs))
      | Some ws \<Rightarrow> Some (ws @ members k kvs))"
  unfolding collect_def
proof (induction kvs arbitrary: g)
  case Nil
  then show ?case by (simp add: members_def split: option.splits)
next
  case (Cons kv kvs)
  show ?case
    by (simp add: Cons.IH map_of_dict_append members_def split: option.splits)
qed

lemma collect_group:
  assumes "(k, files) \<in> set (collect kvs [])"
  shows "files = members k kvs \<and> files \<noteq> []"
proof -
  have "distinct (map fst (collect kvs ([] :: ('a \<times> 'b list) list)))"
    by (rule distinct_collect) simp
  then have "map_of (collect kvs []) k = Some files"
    using assms by simp
  then show ?thesis
    by (simp add: map_of_collect split: if_splits)
qed

lemma flag_enumerate:
  "map (\<lambda>(i, f). F f (i < length (ys @ [y]) - 1)) (enumerate 0 (ys @ [y]))
     = map (\<lambda>f. F f True) ys @ [F y False]"
proof -
  have "map (\<lambda>(i, f). F f (i < length ys)) (enumerate 0 ys) = map (\<lambda>f. F f True) ys"
    by (rule nth_equalityI) (simp_all add: nth_enumerate_eq)
  then show ?thesis by (simp add: enumerate_append_eq)
qed

lemma flag_group_eq:
  "flag_group files =
     (if length files > 1
      then map (mk_dup True) (butlast (sort_key fi_datetime files))
           @ [mk_dup False (last (sort_key fi_datetime files))]
      else [])"
proof (cases "length files > 1")
  case False
  then show ?thesis by (simp add: flag_group_def)
next
  case True
  define S where "S = sort_key fi_datetime files"
  have "S \<noteq> []" using True unfolding S_def by (metis length_sort list.size(3) not_less_zero)
  then have S: "S = butlast S @ [last S]" by simp
  have "map (\<lambda>(i, f). mk_dup (i < length S - 1) f) (enumerate 0 S)
        = map (mk_dup True) (butlast S) @ [mk_dup False (last S)]"
    using flag_enumerate [of "\<lambda>f b. mk_dup b f" "butlast S" "last S"] S by simp
  then show ?thesis
    using True unfolding flag_group_def S_def [symmetric] Let_def mk_dup_def by simp
qed

lemma dup_names_flag_group:
  "dup_names (flag_group files) =
     (if length files > 1 then map fi_filename (butlast (sort_key fi_datetime files)) else [])"
  by (simp add: flag_group_eq dup_names_def mk_dup_def comp_def)

lemma dup_names_append: "dup_names (a @ b) = dup_names a @ dup_names b"
  by (simp add: dup_names_def)

lemma dup_names_concat: "dup_names (concat xss) = concat (map dup_names xss)"
  by (induction xss) (simp_all add: dup_names_append, simp add: dup_names_def)

lemma move_loop_class_dir:
  assumes "\<And>e. e \<in> set (class_dir st) \<Longrightarrow> \<not> refuses (fst e)"
  shows "class_dir (fst (move_loop refuses ds st c))
         = filter (\<lambda>e. fst e \<notin> set (dup_names ds)) (class_dir st)"
  using assms
proof (induction ds arbitrary: st c)
  case Nil
  then show ?case by (simp add: dup_names_def)
next
  case (Cons d ds)
  obtain f cl sid ts b where d: "d = (f, cl, sid, ts, b)" by (cases d)
  show ?case
  proof (cases b)
    case False
    then show ?thesis using Cons unfolding d by (simp add: dup_names_def)
  next
    case True
    show ?thesis
    proof (cases "map_of (class_dir st) f")
      case None
      then have nf: "f \<notin> fst ` set (class_dir st)" by (simp add: map_of_eq_None_iff)
      have "filter (\<lambda>e. fst e \<notin> set (dup_names (d # ds))) (class_dir st)
            = filter (\<lambda>e. fst e \<notin> set (dup_names ds)) (class_dir st)"
        using nf True unfolding d dup_names_def by (intro filter_cong) auto
      then show ?thesis
        using None True Cons unfolding d by (simp add: shutil_move_def)
    next
      case (Some n)
      then have "(f, n) \<in> set (class_dir st)" by (rule map_of_SomeD)
      then have nr: "\<not> refuses f" using Cons.prems by force
      define st1 where "st1 = \<lparr>class_dir = filter (\<lambda>e. fst e \<noteq> f) (class_dir st),
                    duplicates_dir = duplicates_dir st @ [(dest_for (duplicates_dir st) f, n)]\<rparr>"
      have mv: "shutil_move refuses f (dest_for (duplicates_dir st) f) st = Inr st1"
        using Some nr by (simp add: shutil_move_def st1_def)
      have "\<And>e. e \<in> set (class_dir st1) \<Longrightarrow> \<not> refuses (fst e)"
        using Cons.prems by (simp add: st1_def)
      then have "class_dir (fst (move_loop refuses ds st1 (c + 1)))
         = filter (\<lambda>e. fst e \<notin> set (dup_names ds)) (class_dir st1)"
        by (rule Cons.IH)
      moreover have "filter (\<lambda>e. fst e \<notin> set (dup_names ds)) (class_dir st1)
           = filter (\<lambda>e. fst e \<notin> set (dup_names (d # ds))) (class_dir st)"
        using True unfolding d dup_names_def st1_def by (auto intro: filter_cong)
      ultimately show ?thesis
        using True mv unfolding d by simp
    qed
  qed
qed

lemma entry_info_filename: "entry_info e = Some (k, v) \<Longrightarrow> fi_filename v = fst e"
  by (auto simp: entry_info_def split: if_splits option.splits)

lemma map_filter_filter:
  assumes "\<And>x y. f x = Some y \<Longrightarrow> P x = Q y"
  shows "List.map_filter f (filter P xs) = filter Q (List.map_filter f xs)"
  using assms by (induction xs) (auto simp: List.map_filter_simps split: option.splits)

lemma mset_map_filter:
  "mset xs = mset ys \<Longrightarrow> mset (List.map_filter f xs) = mset (List.map_filter f ys)"
  by (simp add: List.map_filter_def)

lemma length_members_mset:
  "mset kvs = mset kvs' \<Longrightarrow> length (members k kvs) = length (members k kvs')"
proof -
  assume "mset kvs = mset kvs'"
  then have "mset (filter (\<lambda>kv. fst kv = k) kvs) = mset (filter (\<lambda>kv. fst kv = k) kvs')"
    by (metis mset_filter)
  then have "length (filter (\<lambda>kv. fst kv = k) kvs) = length (filter (\<lambda>kv. fst kv = k) kvs')"
    by (rule mset_eq_length)
  then show ?thesis by (simp add: members_def)
qed

lemma find_duplicates_eq:
  "scan_ok ls \<Longrightarrow> find_duplicates_in_folder ls =
     Inr (concat (map (\<lambda>(key, files). flag_group files) (collect (List.map_filter entry_info ls) [])))"
  by (simp add: find_duplicates_in_folder_def scan_folder_collect)

lemma find_duplicates_returns:
  "find_duplicates_in_folder ls = Inr dups \<Longrightarrow> scan_ok ls"
proof -
  assume a: "find_duplicates_in_folder ls = Inr dups"
  show "scan_ok ls"
  proof (cases "scan_folder ls []")
    case (Inl e)
    then show ?thesis using a by (simp add: find_duplicates_in_folder_def)
  next
    case (Inr g)
    then show ?thesis by (rule scan_folder_returns)
  qed
qed

lemma singleton_buckets:
  assumes small: "\<And>k. length (members k (List.map_filter entry_info ls)) \<le> 1"
    and ok: "scan_ok ls"
  shows "list_all (\<lambda>(k, files). length files = 1) (collect (List.map_filter entry_info ls) [])"
    and "find_duplicates_in_folder ls = Inr []"
proof -
  let ?g = "collect (List.map_filter entry_info ls) []"
  have one: "length files = 1" if "(k, files) \<in> set ?g" for k files
  proof -
    from collect_group [OF that] have "files = members k (List.map_filter entry_info ls)" "files \<noteq> []"
      by blast+
    then have "length files \<le> 1" "length files \<noteq> 0" using small [of k] by simp_all
    then show ?thesis by linarith
  qed
  then show "list_all (\<lambda>(k, files). length files = 1) ?g"
    by (auto simp: list_all_iff)
  have "flag_group files = []" if "(k, files) \<in> set ?g" for k files
    using one [OF that] by (simp add: flag_group_def)
  then have "concat (map (\<lambda>(key, files). flag_group files) ?g) = []"
    by auto
  then show "find_duplicates_in_folder ls = Inr []"
    by (simp add: find_duplicates_eq [OF ok])
qed

lemma length_filter_butlast_sorted:
  assumes "G \<noteq> []"
  shows "length (filter (\<lambda>x. x \<notin> set (butlast (sort_key f G))) G) \<le> 1"
proof -
  define S where "S = sort_key f G"
  have "S \<noteq> []" using assms unfolding S_def by (metis length_sort length_0_conv)
  then have S: "S = butlast S @ [last S]" by simp
  let ?P = "\<lambda>x. x \<notin> set (butlast S)"
  have "mset G = mset S" by (simp add: S_def)
  then have "mset (filter ?P G) = mset (filter ?P S)" by (metis mset_filter)
  then have "length (filter ?P G) = length (filter ?P S)" by (rule mset_eq_length)
  also have "filter ?P S = filter ?P (butlast S) @ filter ?P [last S]"
    by (subst S) (simp only: filter_append)
  also have "filter ?P (butlast S) = []" by (simp add: filter_empty_conv)
  finally show ?thesis unfolding S_def by simp
qed

lemma length_filter_mono:
  assumes "\<And>x. x \<in> set xs \<Longrightarrow> P x \<Longrightarrow> Q x"
  shows "length (filter P xs) \<le> length (filter Q xs)"
proof -
  have "filter P (filter Q xs) = filter P xs"
    using assms by (auto intro: filter_cong)
  then show ?thesis by (metis length_filter_le)
qed

lemma members_after_moves:
  fixes ls :: folder
  defines "kvs \<equiv> List.map_filter entry_info ls"
  defines "M \<equiv> set (dup_names (concat (map (\<lambda>(key, files). flag_group files) (collect kvs []))))"
  shows "length (members k (List.map_filter entry_info (filter (\<lambda>e. fst e \<notin> M) ls))) \<le> 1"
proof -
  let ?Q = "\<lambda>kv. fi_filename (snd kv) \<notin> M"
  have "List.map_filter entry_info (filter (\<lambda>e. fst e \<notin> M) ls) = filter ?Q kvs"
    unfolding kvs_def
    by (rule map_filter_filter) (metis entry_info_filename prod.collapse)
  then have m1: "members k (List.map_filter entry_info (filter (\<lambda>e. fst e \<notin> M) ls))
       = filter (\<lambda>v. fi_filename v \<notin> M) (members k kvs)"
    by (simp add: members_def filter_map comp_def conj_commute)
  define G where "G = members k kvs"
  show ?thesis
  proof (cases "length G \<le> 1")
    case True
    have "length (filter (\<lambda>v. fi_filename v \<notin> M) G) \<le> length G" by (rule length_filter_le)
    then have "length (filter (\<lambda>v. fi_filename v \<notin> M) G) \<le> 1" using True by linarith
    then show ?thesis unfolding m1 G_def [symmetric] .
  next
    case False
    then have ne: "G \<noteq> []" by auto
    then have "map_of (collect kvs []) k = Some G"
      by (simp add: map_of_collect G_def)
    then have "(k, G) \<in> set (collect kvs [])" by (rule map_of_SomeD)
    then have "set (dup_names (flag_group G)) \<subseteq> M"
      unfolding M_def dup_names_concat by force
    then have sub: "fi_filename ` set (butlast (sort_key fi_datetime G)) \<subseteq> M"
      using False by (simp add: dup_names_flag_group)
    have "length (filter (\<lambda>v. fi_filename v \<notin> M) G)
          \<le> length (filter (\<lambda>x. x \<notin> set (butlast (sort_key fi_datetime G))) G)"
      using sub by (intro length_filter_mono) auto
    also have "\<dots> \<le> 1" by (rule length_filter_butlast_sorted [OF ne])
    finally show ?thesis unfolding m1 G_def [symmetric] .
  qed
qed

lemma dup_count_names:
  "length (filter (\<lambda>(_, _, _, _, is_dup). is_dup) ds) = length (dup_names ds)"
proof -
  have "(\<lambda>(_, _, _, _, is_dup). is_dup) = (\<lambda>d :: dup. snd (snd (snd (snd d))))"
    by (auto simp: fun_eq_iff)
  then show ?thesis by (simp add: dup_names_def)
qed

lemma resolve_class_result:
  assumes "\<forall>e\<in>set (class_dir st). \<not> refuses (fst e)"
    and "find_duplicates_in_folder (class_dir st) = Inr dups"
  shows "\<exists>st1 n1. resolve_class refuses st = Inr (st1, n1)
           \<and> class_dir st1 = filter (\<lambda>e. fst e \<notin> set (dup_names dups)) (class_dir st)"
proof (cases "dup_names dups = []")
  case True
  then have "resolve_class refuses st = Inr (st, 0)"
    using assms(2) by (simp add: resolve_class_def dup_count_names)
  then show ?thesis using True by simp
next
  case False
  then have "dups \<noteq> []" by (auto simp: dup_names_def)
  then have "resolve_class refuses st = Inr (move_loop refuses dups st 0)"
    using assms(2) False by (simp add: resolve_class_def dup_count_names move_duplicates_def)
  moreover have "class_dir (fst (move_loop refuses dups st 0))
         = filter (\<lambda>e. fst e \<notin> set (dup_names dups)) (class_dir st)"
    using assms(1) by (intro move_loop_class_dir) simp
  ultimately show ?thesis by (metis prod.collapse)
qed

lemma resolve_class_returns:
  "(\<exists>r. resolve_class refuses st = Inr r) = scan_ok (class_dir st)"
proof
  assume "\<exists>r. resolve_class refuses st = Inr r"
  then obtain r where r: "resolve_class refuses st = Inr r" ..
  show "scan_ok (class_dir st)"
  proof (cases "find_duplicates_in_folder (class_dir st)")
    case (Inl e)
    then show ?thesis using r by (simp add: resolve_class_def)
  next
    case (Inr dups)
    then show ?thesis by (rule find_duplicates_returns)
  qed
next
  assume "scan_ok (class_dir st)"
  then show "\<exists>r. resolve_class refuses st = Inr r"
    by (simp add: resolve_class_def find_duplicates_eq)
qed

text \<open>
  C5. Let a run of the Resolver on a class folder return, with none of its moves
  refused. Then in the folder it leaves behind (read in any order) every
  (class, normalized student key) bucket has exactly one member and
  \<open>find_duplicates_in_folder\<close> reports nothing; a second run, whatever it would refuse,
  moves nothing (count 0) and leaves the file system, hence the kept set, as it is.
  (A run does not return when the scan meets a student id that \<open>str.isdigit\<close> accepts and
  \<open>int()\<close> rejects: it raises before any move, see \<open>resolve_class_returns\<close>.)
\<close>

theorem resolver_idempotent:
  assumes "\<forall>e\<in>set (class_dir st). \<not> refuses (fst e)"
    and "resolve_class refuses st = Inr (st1, n1)"
  shows "(\<forall>ls2. mset ls2 = mset (class_dir st1) \<longrightarrow>
            find_duplicates_in_folder ls2 = Inr []
            \<and> (\<exists>g. scan_folder ls2 [] = Inr g \<and> list_all (\<lambda>(k, files). length files = 1) g))
       \<and> resolve_class refuses2 st1 = Inr (st1, 0)"
proof -
  have ok: "scan_ok (class_dir st)"
    using assms(2) resolve_class_returns [of refuses st] by blast
  define dups where "dups = concat (map (\<lambda>(key, files). flag_group files)
      (collect (List.map_filter entry_info (class_dir st)) []))"
  have f: "find_duplicates_in_folder (class_dir st) = Inr dups"
    by (simp add: find_duplicates_eq [OF ok] dups_def)
  from resolve_class_result [OF assms(1) f] assms(2)
  have c: "class_dir st1 = filter (\<lambda>e. fst e \<notin> set (dup_names dups)) (class_dir st)"
    by simp
  have ok1: "scan_ok (class_dir st1)"
    unfolding c by (rule scan_ok_subset [OF _ ok]) simp
  have small: "length (members k (List.map_filter entry_info ls2)) \<le> 1"
    if "mset ls2 = mset (class_dir st1)" for ls2 k
  proof -
    have "length (members k (List.map_filter entry_info ls2))
          = length (members k (List.map_filter entry_info (class_dir st1)))"
      by (intro length_members_mset mset_map_filter that)
    also have "\<dots> \<le> 1"
      unfolding c dups_def by (rule members_after_moves)
    finally show ?thesis .
  qed
  have second: "find_duplicates_in_folder ls2 = Inr []
        \<and> (\<exists>g. scan_folder ls2 [] = Inr g \<and> list_all (\<lambda>(k, files). length files = 1) g)"
    if "mset ls2 = mset (class_dir st1)" for ls2
  proof -
    have ok2: "scan_ok ls2" using ok1 scan_ok_mset [OF that] by simp
    show ?thesis
      using singleton_buckets [of ls2, OF small [OF that] ok2] by (simp add: scan_folder_collect [OF ok2])
  qed
  then have "find_duplicates_in_folder (class_dir st1) = Inr []" by simp
  then have "resolve_class refuses2 st1 = Inr (st1, 0)"
    by (simp add: resolve_class_def)
  with second show ?thesis by blast
qed

lemma dup_loop_free: "\<not> path_exists d (dup_loop d base ext dest_path counter)"
proof (induction d base ext dest_path counter rule: dup_loop.induct)
  case (1 d base ext dest_path counter)
  show ?case
    by (subst dup_loop.simps) (use 1 in auto)
qed

lemma dest_for_free: "\<not> path_exists d (dest_for d filename)"
  by (auto simp: dest_for_def dup_loop_free split: prod.splits)

lemma collect_same_key:
  assumes "\<forall>kv\<in>set kvs. fst kv = k"
  shows "collect kvs [(k, ws)] = [(k, ws @ map snd kvs)]"
  using assms unfolding collect_def
  by (induction kvs arbitrary: ws) simp_all

lemma collect_single_group:
  assumes "\<forall>kv\<in>set kvs. fst kv = k" "kvs \<noteq> []"
  shows "collect kvs [] = [(k, map snd kvs)]"
proof -
  obtain kv rest where kvs: "kvs = kv # rest" using assms(2) by (cases kvs) auto
  have "collect kvs [] = collect rest [(k, [snd kv])]"
    using assms(1) unfolding kvs collect_def by simp
  also have "\<dots> = [(k, [snd kv] @ map snd rest)]"
    using assms(1) unfolding kvs by (intro collect_same_key) simp
  finally show ?thesis unfolding kvs by simp
qed

lemma sort_key_three:
  fixes f :: "'a \<Rightarrow> 'b::linorder"
  assumes "mset xs = {#a, b, c#}" "f a < f b" "f b < f c"
  shows "sort_key f xs = [a, b, c]"
proof (rule properties_for_sort_key)
  show "mset [a, b, c] = mset xs" using assms(1) by simp
  show "sorted (map f [a, b, c])"
    using assms(2,3) less_trans [OF assms(2,3)] by (simp add: less_imp_le)
  fix k assume k: "k \<in> set [a, b, c]"
  have "mset (filter (\<lambda>x. f k = f x) xs) = filter_mset (\<lambda>x. f k = f x) {#a, b, c#}"
    using assms(1) by (metis mset_filter)
  also have "\<dots> = mset (filter (\<lambda>x. f k = f x) [a, b, c])"
    by simp
  finally have "mset (filter (\<lambda>x. f k = f x) xs) = {#k#}"
    using k assms(2,3) by auto
  then have "filter (\<lambda>x. f k = f x) xs = [k]" by (simp only: mset_single_iff)
  moreover have "filter (\<lambda>x. f k = f x) [a, b, c] = [k]"
    using k assms(2,3) by auto
  ultimately show "filter (\<lambda>x. f k = f x) [a, b, c] = filter (\<lambda>x. f k = f x) xs" by simp
qed

text \<open>
  C1. Three records of one class whose student keys normalize to the same identity,
  with parsed instants \<open>t1 < t2 < t3\<close>, alone in the class folder and listed in any
  order: \<open>find_duplicates_in_folder\<close> flags the records at \<open>t1\<close> and \<open>t2\<close> as duplicates
  and the record at \<open>t3\<close> as kept, and the Resolver (no move being refused) leaves
  exactly the record at \<open>t3\<close> in the class folder and appends the other two, under
  names that were free, to the quarantine folder, reporting two moves.
\<close>

theorem resolver_keeps_newest_of_three:
  assumes p: "parse_filename f1 = Some (c, k1, ts1, f1)" "parse_filename f2 = Some (c, k2, ts2, f2)"
      "parse_filename f3 = Some (c, k3, ts3, f3)"
    and np: "\<not> py_in ''_PROCESSED.txt'' f1" "\<not> py_in ''_PROCESSED.txt'' f2"
      "\<not> py_in ''_PROCESSED.txt'' f3"
    and nz: "normalize_student_id k1 = Inr n" "normalize_student_id k2 = Inr n"
      "normalize_student_id k3 = Inr n"
    and lt: "get_timestamp_for_sorting ts1 < get_timestamp_for_sorting ts2"
      "get_timestamp_for_sorting ts2 < get_timestamp_for_sorting ts3"
    and files: "isfile x1" "isfile x2" "isfile x3"
    and scan: "mset (class_dir st) = {#(f1, x1), (f2, x2), (f3, x3)#}"
    and nr: "\<not> refuses f1" "\<not> refuses f2"
  shows "find_duplicates_in_folder (class_dir st) =
           Inr [(f1, c, k1, ts1, True), (f2, c, k2, ts2, True), (f3, c, k3, ts3, False)]
       \<and> (\<exists>d1 d2. resolve_class refuses st =
              Inr (\<lparr>class_dir = [(f3, x3)],
                    duplicates_dir = duplicates_dir st @ [(d1, x1), (d2, x2)]\<rparr>, 2)
            \<and> \<not> path_exists (duplicates_dir st) d1
            \<and> \<not> path_exists (duplicates_dir st @ [(d1, x1)]) d2)"
proof -
  define L where "L = class_dir st"
  define D where "D = duplicates_dir st"
  define i1 where "i1 = \<lparr>fi_filename = f1, fi_class = c, fi_student_id = k1, fi_timestamp = ts1,
      fi_datetime = get_timestamp_for_sorting ts1\<rparr>"
  define i2 where "i2 = \<lparr>fi_filename = f2, fi_class = c, fi_student_id = k2, fi_timestamp = ts2,
      fi_datetime = get_timestamp_for_sorting ts2\<rparr>"
  define i3 where "i3 = \<lparr>fi_filename = f3, fi_class = c, fi_student_id = k3, fi_timestamp = ts3,
      fi_datetime = get_timestamp_for_sorting ts3\<rparr>"
  have nid: "norm_id k1 = n" "norm_id k2 = n" "norm_id k3 = n"
    using nz by (simp_all add: normalize_student_id_norm)
  have ei: "entry_info (f1, x1) = Some ((c, n), i1)" "entry_info (f2, x2) = Some ((c, n), i2)"
    "entry_info (f3, x3) = Some ((c, n), i3)"
    using p np files nid by (simp_all add: entry_info_def i1_def i2_def i3_def)
  have ne: "f1 \<noteq> f2" "f2 \<noteq> f3" "f1 \<noteq> f3"
    using p lt by auto
  define kvs where "kvs = List.map_filter entry_info L"
  have "mset kvs = mset (List.map_filter entry_info [(f1, x1), (f2, x2), (f3, x3)])"
    unfolding kvs_def by (rule mset_map_filter) (simp add: L_def scan)
  then have mk: "mset kvs = {#((c, n), i1), ((c, n), i2), ((c, n), i3)#}"
    by (simp add: List.map_filter_simps ei)
  then have "set kvs = {((c, n), i1), ((c, n), i2), ((c, n), i3)}"
    by (metis mset_eq_setD mset.simps list.simps(15) empty_set)
  then have keys: "\<forall>kv\<in>set kvs. fst kv = (c, n)" and "kvs \<noteq> []" by auto
  then have g: "collect kvs [] = [((c, n), map snd kvs)]"
    by (rule collect_single_group)
  have "mset (map snd kvs) = image_mset snd (mset kvs)" by simp
  then have mi: "mset (map snd kvs) = {#i1, i2, i3#}" by (simp add: mk)
  have s: "sort_key fi_datetime (map snd kvs) = [i1, i2, i3]"
    using mi lt by (intro sort_key_three) (simp_all add: i1_def i2_def i3_def)
  have len: "length (map snd kvs) = 3"
    using mi by (metis mset_eq_length length_Cons list.size(3) mset.simps numeral_3_eq_3)
  have fg: "flag_group (map snd kvs) =
      [(f1, c, k1, ts1, True), (f2, c, k2, ts2, True), (f3, c, k3, ts3, False)]"
    using len by (simp add: flag_group_eq s mk_dup_def i1_def i2_def i3_def)
  have "scan_ok [(f1, x1), (f2, x2), (f3, x3)]"
    using p nz nid by (simp add: scan_ok_def entry_ok_def)
  moreover have "mset L = mset [(f1, x1), (f2, x2), (f3, x3)]" by (simp add: L_def scan)
  ultimately have ok: "scan_ok L" using scan_ok_mset by blast
  have find: "find_duplicates_in_folder L =
      Inr [(f1, c, k1, ts1, True), (f2, c, k2, ts2, True), (f3, c, k3, ts3, False)]"
    by (simp add: find_duplicates_eq [OF ok] kvs_def [symmetric] g fg)
  have mL: "mset L = mset [(f1, x1), (f2, x2), (f3, x3)]" by (simp add: L_def scan)
  have "mset (map fst L) = mset (map fst [(f1, x1), (f2, x2), (f3, x3)])"
    using mL by (metis mset_map)
  then have dL: "distinct (map fst L)"
    using ne by (metis (no_types, lifting) mset_eq_imp_distinct_iff distinct.simps(2) distinct_singleton
        list.simps(8,9) fst_conv set_ConsD empty_iff list.set(1))
  have inL: "(f1, x1) \<in> set L" "(f2, x2) \<in> set L"
    using mset_eq_setD [OF mL] by simp_all
  have m1: "map_of L f1 = Some x1" using dL inL(1) by (rule map_of_is_SomeI)
  define L1 where "L1 = filter (\<lambda>e. fst e \<noteq> f1) L"
  have "distinct (map fst L1)" unfolding L1_def using dL by (rule distinct_map_filter)
  moreover have "(f2, x2) \<in> set L1" using inL(2) ne by (simp add: L1_def)
  ultimately have m2: "map_of L1 f2 = Some x2" by (rule map_of_is_SomeI)
  have "mset (filter (\<lambda>e. fst e \<noteq> f2) L1)
        = filter_mset (\<lambda>e. fst e \<noteq> f2) (filter_mset (\<lambda>e. fst e \<noteq> f1) (mset L))"
    by (simp only: L1_def mset_filter)
  also have "\<dots> = {#(f3, x3)#}"
    using ne by (simp add: L_def scan)
  finally have "mset (filter (\<lambda>e. fst e \<noteq> f2) L1) = {#(f3, x3)#}" .
  then have L2: "filter (\<lambda>e. fst e \<noteq> f2) L1 = [(f3, x3)]" by (simp only: mset_single_iff)
  define d1 where "d1 = dest_for D f1"
  define d2 where "d2 = dest_for (D @ [(d1, x1)]) f2"
  have mv: "move_loop refuses [(f1, c, k1, ts1, True), (f2, c, k2, ts2, True), (f3, c, k3, ts3, False)] st 0
      = (\<lparr>class_dir = [(f3, x3)], duplicates_dir = D @ [(d1, x1), (d2, x2)]\<rparr>, 2)"
    using m1 m2 nr L2
    by (simp add: shutil_move_def L_def [symmetric] D_def [symmetric] L1_def [symmetric]
          d1_def [symmetric] d2_def [symmetric])
  have res: "resolve_class refuses st =
      Inr (\<lparr>class_dir = [(f3, x3)], duplicates_dir = D @ [(d1, x1), (d2, x2)]\<rparr>, 2)"
    using find mv by (simp add: resolve_class_def L_def [symmetric] move_duplicates_def)
  have "\<not> path_exists D d1" "\<not> path_exists (D @ [(d1, x1)]) d2"
    unfolding d1_def d2_def by (rule dest_for_free)+
  with find res show ?thesis unfolding L_def D_def by blast
qed

theorem resolver_keeps_newest_of_three_witness:
  "find_duplicates_in_folder
      [(''SpeakingTest_5_3_2024.01.01.1100.txt'', File ''c''),
       (''SpeakingTest_5_3_2024.01.01.0900.txt'', File ''a''),
       (''SpeakingTest_5_03_2024.01.01.1000.txt'', File ''b'')]
    = Inr [(''SpeakingTest_5_3_2024.01.01.0900.txt'', ''5'', ''3'', ''2024.01.01.0900'', True),
           (''SpeakingTest_5_03_2024.01.01.1000.txt'', ''5'', ''03'', ''2024.01.01.1000'', True),
           (''SpeakingTest_5_3_2024.01.01.1100.txt'', ''5'', ''3'', ''2024.01.01.1100'', False)]
   \<and> (\<exists>d1 d2. resolve_class (\<lambda>_. False)
         \<lparr>class_dir = [(''SpeakingTest_5_3_2024.01.01.1100.txt'', File ''c''),
                       (''SpeakingTest_5_3_2024.01.01.0900.txt'', File ''a''),
                       (''SpeakingTest_5_03_2024.01.01.1000.txt'', File ''b'')],
          duplicates_dir = [(''SpeakingTest_5_3_2024.01.01.0900.txt'', File ''old'')]\<rparr>
       = Inr (\<lparr>class_dir = [(''SpeakingTest_5_3_2024.01.01.1100.txt'', File ''c'')],
               duplicates_dir = [(''SpeakingTest_5_3_2024.01.01.0900.txt'', File ''old''),
                                 (d1, File ''a''), (d2, File ''b'')]\<rparr>, 2))"
proof -
  let ?f1 = "''SpeakingTest_5_3_2024.01.01.0900.txt''"
  let ?f2 = "''SpeakingTest_5_03_2024.01.01.1000.txt''"
  let ?f3 = "''SpeakingTest_5_3_2024.01.01.1100.txt''"
  let ?st = "\<lparr>class_dir = [(?f3, File ''c''), (?f1, File ''a''), (?f2, File ''b'')],
          duplicates_dir = [(?f1, File ''old'')]\<rparr>"
  have p: "parse_filename ?f1 = Some (''5'', ''3'', ''2024.01.01.0900'', ?f1)"
       "parse_filename ?f2 = Some (''5'', ''03'', ''2024.01.01.1000'', ?f2)"
       "parse_filename ?f3 = Some (''5'', ''3'', ''2024.01.01.1100'', ?f3)"
    by code_simp+
  have np: "\<not> py_in ''_PROCESSED.txt'' ?f1" "\<not> py_in ''_PROCESSED.txt'' ?f2"
      "\<not> py_in ''_PROCESSED.txt'' ?f3"
    by code_simp+
  have nz: "normalize_student_id ''3'' = Inr ''3''" "normalize_student_id ''03'' = Inr ''3''"
    by code_simp+
  have lt: "get_timestamp_for_sorting ''2024.01.01.0900'' < get_timestamp_for_sorting ''2024.01.01.1000''"
      "get_timestamp_for_sorting ''2024.01.01.1000'' < get_timestamp_for_sorting ''2024.01.01.1100''"
    by code_simp+
  have fl: "isfile (File ''a'')" "isfile (File ''b'')" "isfile (File ''c'')"
    by (simp_all add: isfile_def)
  have ms: "mset (class_dir ?st) = {#(?f1, File ''a''), (?f2, File ''b''), (?f3, File ''c'')#}"
    by simp
  show ?thesis
    using resolver_keeps_newest_of_three [OF p np nz(1) nz(2) nz(1) lt fl ms, of "\<lambda>_. False"]
    by simp blast
qed

theorem resolver_idempotent_witness:
  "resolve_class (\<lambda>_. False)
      \<lparr>class_dir = [(''SpeakingTest_5_3_2024.01.01.1100.txt'', File ''c''),
                    (''SpeakingTest_5_3_2024.01.01.0900.txt'', File ''a''),
                    (''notes.txt'', File ''n''),
                    (''SpeakingTest_5_7_2024.01.01.0930.txt'', File ''d''),
                    (''SpeakingTest_5_03_2024.01.01.1000.txt'', File ''b'')],
       duplicates_dir = []\<rparr>
    = Inr (\<lparr>class_dir = [(''SpeakingTest_5_3_2024.01.01.1100.txt'', File ''c''),
                          (''notes.txt'', File ''n''),
                          (''SpeakingTest_5_7_2024.01.01.0930.txt'', File ''d'')],
             duplicates_dir = [(''SpeakingTest_5_3_2024.01.01.0900.txt'', File ''a''),
                               (''SpeakingTest_5_03_2024.01.01.1000.txt'', File ''b'')]\<rparr>, 2)
   \<and> find_duplicates_in_folder
        [(''SpeakingTest_5_3_2024.01.01.1100.txt'', File ''c''),
         (''notes.txt'', File ''n''),
         (''SpeakingTest_5_7_2024.01.01.0930.txt'', File ''d'')] = Inr []
   \<and> resolve_class (\<lambda>_. True)
        \<lparr>class_dir = [(''SpeakingTest_5_3_2024.01.01.1100.txt'', File ''c''),
                      (''notes.txt'', File ''n''),
                      (''SpeakingTest_5_7_2024.01.01.0930.txt'', File ''d'')],
         duplicates_dir = [(''SpeakingTest_5_3_2024.01.01.0900.txt'', File ''a''),
                           (''SpeakingTest_5_03_2024.01.01.1000.txt'', File ''b'')]\<rparr>
      = Inr (\<lparr>class_dir = [(''SpeakingTest_5_3_2024.01.01.1100.txt'', File ''c''),
                            (''notes.txt'', File ''n''),
                            (''SpeakingTest_5_7_2024.01.01.0930.txt'', File ''d'')],
               duplicates_dir = [(''SpeakingTest_5_3_2024.01.01.0900.txt'', File ''a''),
                                 (''SpeakingTest_5_03_2024.01.01.1000.txt'', File ''b'')]\<rparr>, 0)"
proof -
  let ?st = "\<lparr>class_dir = [(''SpeakingTest_5_3_2024.01.01.1100.txt'', File ''c''),
                       (''SpeakingTest_5_3_2024.01.01.0900.txt'', File ''a''),
                       (''notes.txt'', File ''n''),
                       (''SpeakingTest_5_7_2024.01.01.0930.txt'', File ''d''),
                       (''SpeakingTest_5_03_2024.01.01.1000.txt'', File ''b'')],
          duplicates_dir = []\<rparr>"
  let ?st1 = "\<lparr>class_dir = [(''SpeakingTest_5_3_2024.01.01.1100.txt'', File ''c''),
                       (''notes.txt'', File ''n''),
                       (''SpeakingTest_5_7_2024.01.01.0930.txt'', File ''d'')],
             duplicates_dir = [(''SpeakingTest_5_3_2024.01.01.0900.txt'', File ''a''),
                               (''SpeakingTest_5_03_2024.01.01.1000.txt'', File ''b'')]\<rparr>"
  have h: "\<forall>e\<in>set (class_dir ?st). \<not> (\<lambda>_. False) (fst e)" by simp
  have c: "resolve_class (\<lambda>_. False) ?st = Inr (?st1, 2)"
    by code_simp
  from resolver_idempotent [OF h c, of "\<lambda>_. True"]
  have f: "\<forall>ls2. mset ls2 = mset (class_dir ?st1) \<longrightarrow> find_duplicates_in_folder ls2 = Inr []
                 \<and> (\<exists>g. scan_folder ls2 [] = Inr g \<and> list_all (\<lambda>(k, files). length files = 1) g)"
    and s: "resolve_class (\<lambda>_. True) ?st1 = Inr (?st1, 0)"
    by blast+
  from f have "find_duplicates_in_folder (class_dir ?st1) = Inr []" by blast
  then have f': "find_duplicates_in_folder
        [(''SpeakingTest_5_3_2024.01.01.1100.txt'', File ''c''),
         (''notes.txt'', File ''n''),
         (''SpeakingTest_5_7_2024.01.01.0930.txt'', File ''d'')] = Inr []" by simp
  from c f' s show ?thesis by blast
qed

section \<open>Scores: bounds and last-write-wins\<close>

lemma round_half_even_le:
  assumes "0 < d" "n \<le> M * d"
  shows "round_half_even n d \<le> M"
proof -
  have q: "n div d \<le> M"
  proof -
    have "n div d \<le> (M * d) div d" using assms by (intro zdiv_mono1) simp_all
    then show ?thesis using assms(1) by simp
  qed
  show ?thesis
  proof (cases "n div d = M")
    case True
    have "n = d * (n div d) + n mod d" by simp
    then have "n mod d = n - M * d" using True by (simp add: algebra_simps)
    then have "n mod d \<le> 0" using assms(2) by simp
    moreover have "0 \<le> n mod d" using assms(1) by simp
    ultimately have "n mod d = 0" by simp
    then show ?thesis using True assms(1) by (simp add: round_half_even_def Let_def)
  next
    case False
    then have "n div d + 1 \<le> M" using q by simp
    then show ?thesis using q by (simp add: round_half_even_def Let_def)
  qed
qed

lemma round_half_even_nonneg:
  assumes "0 < d" "0 \<le> n"
  shows "0 \<le> round_half_even n d"
proof -
  have "0 \<le> n div d" using assms by (simp add: pos_imp_zdiv_nonneg_iff)
  then show ?thesis by (simp add: round_half_even_def Let_def)
qed

lemma bitlen_mono: "x \<le> y \<Longrightarrow> bitlen x \<le> bitlen y"
  by (simp add: bitlen_def floorlog_mono)

lemma ilog2_le:
  assumes "0 < d" "n \<le> d * 2 ^ j"
  shows "ilog2 n d \<le> int j"
proof -
  have "bitlen n \<le> bitlen (d * 2 ^ j)" using assms(2) by (rule bitlen_mono)
  also have "\<dots> = bitlen d + int j" using assms(1) by simp
  finally have "bitlen n - bitlen d \<le> int j" by simp
  then show ?thesis by (simp add: ilog2_def Let_def)
qed

lemma fl_round_le:
  assumes d: "0 < d" and n: "0 \<le> n" "n \<le> M * d" and M: "M \<le> 128"
  shows "\<exists>m e. fl_round n d = Fin m e \<and> e \<le> 0 \<and> 0 \<le> m \<and> m \<le> M * 2 ^ nat (- e)"
proof (cases "n = 0")
  case True
  have "0 \<le> M"
  proof (rule ccontr)
    assume "\<not> 0 \<le> M"
    then have "M * d < 0" using d by (simp add: mult_neg_pos)
    then show False using n True by simp
  qed
  then show ?thesis using True by (simp add: fl_round_def)
next
  case False
  then have pos: "0 < n" using n by simp
  have "M * d \<le> 128 * d" using M d by simp
  then have "n \<le> d * 2 ^ 7" using n(2) by simp
  then have "ilog2 n d \<le> int 7" using d by (intro ilog2_le)
  then have il: "ilog2 \<bar>n\<bar> d \<le> 7" using pos by simp
  define e where "e = max (ilog2 \<bar>n\<bar> d - 52) (- 1074)"
  have e: "e < 0" using il by (simp add: e_def)
  define m where "m = round_half_even (n * 2 ^ nat (- e)) d"
  have fl: "fl_round n d = Fin m e"
    using False e unfolding fl_round_def Let_def e_def [symmetric] m_def by simp
  have "n * 2 ^ nat (- e) \<le> (M * 2 ^ nat (- e)) * d"
    using n(2) by (simp add: mult.assoc mult.left_commute mult_right_mono)
  then have "m \<le> M * 2 ^ nat (- e)" unfolding m_def using d by (intro round_half_even_le)
  moreover have "0 \<le> m" unfolding m_def using d n(1) by (intro round_half_even_nonneg) simp_all
  ultimately show ?thesis using fl e by simp
qed

lemma percentage_bounds:
  assumes "0 \<le> t" "t \<le> m" "0 < m"
  shows "\<exists>p. bind_err (int_truediv t m) (\<lambda>x. py_round (float_mul_int x 100)) = Inr p
              \<and> 0 \<le> p \<and> p \<le> 100"
proof -
  from fl_round_le [of m t 1] assms obtain a e where
    x: "fl_round t m = Fin a e" and e: "e \<le> 0" and a: "0 \<le> a" "a \<le> 2 ^ nat (- e)"
    by auto
  have dv: "int_truediv t m = Inr (Fin a e)"
    using assms(3) x by (simp add: int_truediv_def)
  have "\<exists>b f. float_mul_int (Fin a e) 100 = Fin b f \<and> f \<le> 0 \<and> 0 \<le> b \<and> b \<le> 100 * 2 ^ nat (- f)"
  proof (cases "0 \<le> e")
    case True
    then have e0: "e = 0" using e by simp
    then have "a \<le> 1" using a(2) by simp
    then have "a * 100 \<le> 100 * 1" by simp
    from fl_round_le [of 1 "a * 100" 100] this a(1) show ?thesis
      by (simp add: float_mul_int_def e0)
  next
    case False
    have "a * 100 \<le> 100 * 2 ^ nat (- e)" using a(2) by simp
    from fl_round_le [of "2 ^ nat (- e)" "a * 100" 100] this a(1) show ?thesis
      using False by (simp add: float_mul_int_def)
  qed
  then obtain b f where y: "float_mul_int (Fin a e) 100 = Fin b f"
    and f: "f \<le> 0" and b: "0 \<le> b" "b \<le> 100 * 2 ^ nat (- f)" by blast
  define p where "p = (if 0 \<le> f then b * 2 ^ nat f else round_half_even b (2 ^ nat (- f)))"
  have r: "py_round (Fin b f) = Inr p" by (simp add: py_round_def p_def)
  have "0 \<le> p \<and> p \<le> 100"
  proof (cases "0 \<le> f")
    case True
    then have "f = 0" using f by simp
    then show ?thesis using b by (simp add: p_def)
  next
    case False
    have "round_half_even b (2 ^ nat (- f)) \<le> 100" using b(2) by (intro round_half_even_le) simp_all
    moreover have "0 \<le> round_half_even b (2 ^ nat (- f))" using b(1) by (intro round_half_even_nonneg) simp_all
    ultimately show ?thesis using False by (simp add: p_def)
  qed
  then show ?thesis using dv y r by simp
qed

lemma map_of_dict_set: "map_of (dict_set k v d) = (map_of d)(k \<mapsto> v)"
  by (induction d) (auto simp: fun_eq_iff)

lemma keys_dict_set:
  "map fst (dict_set k v d) = (if k \<in> fst ` set d then map fst d else map fst d @ [k])"
  by (induction d) (auto simp: rev_image_eqI)

lemma distinct_dict_set: "distinct (map fst d) \<Longrightarrow> distinct (map fst (dict_set k v d))"
  by (simp add: keys_dict_set)

lemma in_dict_set: "(a, b) \<in> set (dict_set k v d) \<Longrightarrow> b = v \<or> (a, b) \<in> set d"
  by (induction d) (auto split: if_splits)

lemma values_dict_set: "snd ` set (dict_set k v d) \<subseteq> insert v (snd ` set d)"
proof
  fix b assume "b \<in> snd ` set (dict_set k v d)"
  then obtain a where "(a, b) \<in> set (dict_set k v d)" by auto
  then have "b = v \<or> (a, b) \<in> set d" by (rule in_dict_set)
  then show "b \<in> insert v (snd ` set d)" by force
qed

lemma question_dict_step:
  "foldl (\<lambda>d (q_num, points, binary, filename). dict_set q_num points d) d qs
     = foldl (\<lambda>d q. dict_set (fst (q_points q)) (snd (q_points q)) d) d qs"
proof -
  have "(\<lambda>d (q_num, points, binary, filename). dict_set q_num points d)
        = (\<lambda>d (q :: question). dict_set (fst (q_points q)) (snd (q_points q)) d)"
    by (auto simp: fun_eq_iff q_points_def)
  then show ?thesis by simp
qed

lemma foldl_dict_set_map_of:
  "map_of (foldl (\<lambda>d q. dict_set (fst (f q)) (snd (f q)) d) d qs)
     = map_of d ++ map_of (rev (map f qs))"
proof (induction qs arbitrary: d)
  case Nil
  then show ?case by simp
next
  case (Cons q qs)
  have "map_of (dict_set (fst (f q)) (snd (f q)) d) ++ map_of (rev (map f qs))
        = map_of d ++ map_of (rev (map f (q # qs)))"
    by (simp add: map_of_dict_set)
  then show ?case by (simp add: Cons.IH)
qed

lemma foldl_dict_set_distinct:
  "distinct (map fst d) \<Longrightarrow>
   distinct (map fst (foldl (\<lambda>d q. dict_set (fst (f q)) (snd (f q)) d) d qs))"
  by (induction qs arbitrary: d) (simp_all add: distinct_dict_set)

lemma foldl_dict_set_values:
  "snd ` set (foldl (\<lambda>d q. dict_set (fst (f q)) (snd (f q)) d) d qs)
     \<subseteq> snd ` set d \<union> snd ` f ` set qs"
proof (induction qs arbitrary: d)
  case Nil
  then show ?case by simp
next
  case (Cons q qs)
  let ?d = "dict_set (fst (f q)) (snd (f q)) d"
  have "snd ` set (foldl (\<lambda>d q. dict_set (fst (f q)) (snd (f q)) d) ?d qs)
        \<subseteq> snd ` set ?d \<union> snd ` f ` set qs"
    by (rule Cons.IH)
  also have "\<dots> \<subseteq> insert (snd (f q)) (snd ` set d) \<union> snd ` f ` set qs"
    using values_dict_set [of "fst (f q)" "snd (f q)" d] by blast
  also have "\<dots> = snd ` set d \<union> snd ` f ` set (q # qs)"
    by auto
  finally show ?case by simp
qed

lemma question_dict_last_write_wins:
  "map_of (question_dict qs) = map_of (rev (map q_points qs))"
  "distinct (map fst (question_dict qs))"
  "snd ` set (question_dict qs) \<subseteq> snd ` q_points ` set qs"
proof -
  show "map_of (question_dict qs) = map_of (rev (map q_points qs))"
    using foldl_dict_set_map_of [of q_points "[]" qs]
    by (simp add: question_dict_def question_dict_step)
  show "distinct (map fst (question_dict qs))"
    using foldl_dict_set_distinct [of "[]" q_points qs]
    by (simp add: question_dict_def question_dict_step)
  show "snd ` set (question_dict qs) \<subseteq> snd ` q_points ` set qs"
    using foldl_dict_set_values [of q_points "[]" qs]
    by (simp add: question_dict_def question_dict_step)
qed

lemma question_dict_empty: "(question_dict qs = []) = (qs = [])"
proof
  assume e: "question_dict qs = []"
  show "qs = []"
  proof (cases qs rule: rev_cases)
    case Nil
    then show ?thesis .
  next
    case (snoc ys q)
    have "map_of (rev (map q_points qs)) (fst (q_points q)) = Some (snd (q_points q))"
      by (simp add: snoc)
    then have "map_of (question_dict qs) (fst (q_points q)) = Some (snd (q_points q))"
      by (simp only: question_dict_last_write_wins(1))
    then show ?thesis using e by simp
  qed
next
  assume "qs = []"
  then show "question_dict qs = []" by (simp add: question_dict_def)
qed

lemma py_max_Max: "xs \<noteq> [] \<Longrightarrow> py_max xs = Max (set xs)"
proof (cases xs)
  case Nil
  assume "xs \<noteq> []"
  with Nil show ?thesis by simp
next
  case (Cons a list)
  have "Max (set (a # list)) = fold max list a" by (rule Max.set_eq_fold)
  then show ?thesis by (simp add: Cons py_max_def)
qed

lemma sum_list_le_bound:
  fixes xs :: "int list"
  shows "\<forall>x\<in>set xs. x \<le> M \<Longrightarrow> sum_list xs \<le> int (length xs) * M"
  by (induction xs) (auto simp: algebra_simps)

lemma sum_list_le_length_max:
  fixes xs :: "int list"
  assumes "xs \<noteq> []"
  shows "sum_list xs \<le> int (length xs) * Max (set xs)"
  by (rule sum_list_le_bound) simp

text \<open>
  C10. For every answer sequence whose point values are non-negative, as those read by
  the pattern \<open>\d+\<close> are, \<open>calculate_score\<close> returns (it raises nothing), with a percentage
  between 0 and 100 inclusive and a total no greater than the maximum score; on the
  empty sequence it returns \<open>(0, 0, 0, 0)\<close>.
\<close>

theorem calculate_score_bounds:
  assumes "\<forall>q\<in>set qs. 0 \<le> fst (snd q)"
  shows "\<exists>t m p n. calculate_score qs = Inr (t, m, p, n)
           \<and> 0 \<le> p \<and> p \<le> 100 \<and> 0 \<le> t \<and> t \<le> m
           \<and> (qs = [] \<longrightarrow> t = 0 \<and> m = 0 \<and> p = 0 \<and> n = 0)"
proof (cases "qs = []")
  case True
  then show ?thesis by (simp add: calculate_score_def question_dict_def)
next
  case False
  define d where "d = question_dict qs"
  define vs where "vs = map snd d"
  have ne: "d \<noteq> []" using False by (simp add: d_def question_dict_empty)
  then have vne: "vs \<noteq> []" by (simp add: vs_def)
  have "set vs \<subseteq> snd ` q_points ` set qs"
    using question_dict_last_write_wins(3) [of qs] by (simp add: vs_def d_def)
  then have "\<forall>v\<in>set vs. \<exists>q\<in>set qs. v = snd (q_points q)" by blast
  then have nn: "\<forall>v\<in>set vs. 0 \<le> v" using assms by (fastforce simp: q_points_def)
  define t where "t = sum_list vs"
  define m where "m = int (length d) * py_max vs"
  have t0: "0 \<le> t" unfolding t_def using nn by (simp add: sum_list_nonneg)
  have tm: "t \<le> m"
    unfolding t_def m_def py_max_Max [OF vne]
    using sum_list_le_length_max [OF vne] by (simp add: vs_def)
  have "\<exists>p. (if m > 0 then bind_err (int_truediv t m) (\<lambda>x. py_round (float_mul_int x 100)) else Inr 0)
              = Inr p \<and> 0 \<le> p \<and> p \<le> 100"
  proof (cases "m > 0")
    case True
    then show ?thesis using percentage_bounds [OF t0 tm True] by simp
  next
    case False
    then show ?thesis by simp
  qed
  then obtain p where p: "(if m > 0 then bind_err (int_truediv t m) (\<lambda>x. py_round (float_mul_int x 100)) else Inr 0) = Inr p"
    and pb: "0 \<le> p" "p \<le> 100" by blast
  have "calculate_score qs = Inr (t, m, p, int (length d))"
    using ne vne p
    by (auto simp add: calculate_score_def Let_def d_def [symmetric] vs_def [symmetric]
          t_def [symmetric] m_def [symmetric] split: if_splits)
  then show ?thesis using pb t0 tm False by simp
qed

theorem calculate_score_bounds_witness:
  "\<exists>t m p n. calculate_score [(0, 23, ''1 0 0 0 0'', ''a''), (1, 40, ''0 1 0 0 0'', ''b'')]
                 = Inr (t, m, p, n)
             \<and> t = 63 \<and> m = 80 \<and> p = 79 \<and> n = 2 \<and> 0 \<le> p \<and> p \<le> 100 \<and> 0 \<le> t \<and> t \<le> m"
proof -
  have h: "\<forall>q\<in>set [(0, 23, ''1 0 0 0 0'', ''a''), (1, 40, ''0 1 0 0 0'', ''b'')]. (0::int) \<le> fst (snd q)"
    by simp
  have c: "calculate_score [(0, 23, ''1 0 0 0 0'', ''a''), (1, 40, ''0 1 0 0 0'', ''b'')] = Inr (63, 80, 79, 2)"
    by code_simp
  from calculate_score_bounds [OF h] obtain t m p n where
    r: "calculate_score [(0, 23, ''1 0 0 0 0'', ''a''), (1, 40, ''0 1 0 0 0'', ''b'')] = Inr (t, m, p, n)"
    and b: "0 \<le> p" "p \<le> 100" "0 \<le> t" "t \<le> m"
    by blast
  from r c have "t = 63" "m = 80" "p = 79" "n = 2" by simp_all
  with r b show ?thesis by blast
qed



end
